theory Spec2Isabelle
  imports Main "HOL-Library.Word"
begin

unbundle bit_operations_syntax

section \<open>Data model\<close>

text \<open>
  A state identifier is a non-negative integer and a symbol is a one-character string
  (the simulator's tape cells are the characters of the input). The source keeps the
  transition table in nested objects, \<open>transitions[s][symbol]\<close>; a missing property reads
  as \<open>undefined\<close>, which is \<open>None\<close> here. Object keys are state numbers and single
  characters, so no key is inherited from the prototype of an object.

  The value stored under a state of the table need not be an object. \<open>RowObject r\<close> is an
  object with the entries \<open>r\<close>; \<open>RowNullish\<close> is \<open>null\<close> or \<open>undefined\<close> stored under a key
  that is present; \<open>RowPrimitive\<close> is a number or a boolean. The operator \<open>in\<close> raises a
  \<open>TypeError\<close> on the last two; reading a property raises a \<open>TypeError\<close> on \<open>null\<close> and
  \<open>undefined\<close> and gives \<open>undefined\<close> on a number or a boolean.
\<close>

type_synonym state_id = nat
type_synonym symbol = char
type_synonym row = "symbol \<rightharpoonup> state_id"

datatype row_value = RowObject row | RowNullish | RowPrimitive

type_synonym table = "state_id \<rightharpoonup> row_value"

record dfa =
  states :: "state_id list"
  alphabet :: "symbol list"
  start :: state_id
  finals :: "state_id list"
  transitions :: table

text \<open>A value held in a variable of the source that is a state number or \<open>undefined\<close>.\<close>

type_synonym js_state = "state_id option"

datatype js_error = TypeError

section \<open>Validation (\<open>validateDFA\<close>)\<close>

text \<open>
  The three loops of \<open>validateDFA\<close>. Each returns \<open>False\<close> where the source leaves the
  function with \<open>return 0\<close>, and \<open>True\<close> when the loop runs to its end. The loops over
  the states and the symbols evaluate \<open>symbol in transitions[s]\<close>, which raises a
  \<open>TypeError\<close> when the value stored under \<open>s\<close> is not an object; the source does not
  catch it.
\<close>

fun finals_pass :: "state_id set \<Rightarrow> state_id list \<Rightarrow> bool" where
  "finals_pass stateSet [] = True"
| "finals_pass stateSet (f # fs) =
     (if f \<notin> stateSet then False else finals_pass stateSet fs)"

fun symbols_pass :: "state_id set \<Rightarrow> row_value \<Rightarrow> symbol list \<Rightarrow> js_error + bool" where
  "symbols_pass stateSet v [] = Inr True"
| "symbols_pass stateSet v (symb # symbs) =
     (case v of
        RowObject r \<Rightarrow>
          (case r symb of
             None \<Rightarrow> Inr False
           | Some target \<Rightarrow>
               if target \<notin> stateSet then Inr False else symbols_pass stateSet v symbs)
      | RowNullish \<Rightarrow> Inl TypeError
      | RowPrimitive \<Rightarrow> Inl TypeError)"

fun states_pass ::
  "state_id set \<Rightarrow> symbol list \<Rightarrow> table \<Rightarrow> state_id list \<Rightarrow> js_error + bool" where
  "states_pass stateSet alph tr [] = Inr True"
| "states_pass stateSet alph tr (s # ss) =
     (case tr s of
        None \<Rightarrow> Inr False
      | Some v \<Rightarrow>
          (case symbols_pass stateSet v alph of
             Inl e \<Rightarrow> Inl e
           | Inr ok \<Rightarrow> if ok then states_pass stateSet alph tr ss else Inr False))"

text \<open>
  The source returns the numbers \<open>1\<close> (passed) and \<open>0\<close> (failed), not booleans; \<open>Inl e\<close>
  is a call that raises \<open>e\<close>.
\<close>

definition validateDFA :: "dfa \<Rightarrow> js_error + nat" where
  "validateDFA d =
     (let stateSet = set (states d) in
      if start d \<notin> stateSet then Inr 0
      else if \<not> finals_pass stateSet (finals d) then Inr 0
      else
        (case states_pass stateSet (alphabet d) (transitions d) (states d) of
           Inl e \<Rightarrow> Inl e
         | Inr ok \<Rightarrow> if \<not> ok then Inr 0 else Inr 1))"

text \<open>
  The well-formedness invariant of the specification, clause by clause: the start state
  is a state, every final state is a state, every state has a transition entry, and for
  every alphabet symbol that entry is an object with an entry for the symbol, which is a
  state.
\<close>

definition well_formed :: "dfa \<Rightarrow> bool" where
  "well_formed d \<longleftrightarrow>
     start d \<in> set (states d) \<and>
     (\<forall>f \<in> set (finals d). f \<in> set (states d)) \<and>
     (\<forall>s \<in> set (states d). \<exists>v. transitions d s = Some v \<and>
        (\<forall>c \<in> set (alphabet d). \<exists>r t.
           v = RowObject r \<and> r c = Some t \<and> t \<in> set (states d)))"

section \<open>The examples of the source\<close>

definition validDFA :: dfa where
  "validDFA = \<lparr> states = [0, 1], alphabet = [CHR ''a'', CHR ''b''], start = 0, finals = [1],
     transitions = [0 \<mapsto> RowObject [CHR ''a'' \<mapsto> 1, CHR ''b'' \<mapsto> 0],
                    1 \<mapsto> RowObject [CHR ''a'' \<mapsto> 1, CHR ''b'' \<mapsto> 0]] \<rparr>"

definition invalidDFA :: dfa where
  "invalidDFA = \<lparr> states = [0, 1], alphabet = [CHR ''a'', CHR ''b''], start = 0, finals = [1],
     transitions = [0 \<mapsto> RowObject [CHR ''a'' \<mapsto> 1, CHR ''b'' \<mapsto> 0],
                    1 \<mapsto> RowObject [CHR ''b'' \<mapsto> 0]] \<rparr>"

definition emptyDFA :: dfa where
  "emptyDFA = \<lparr> states = [0, 1], alphabet = [CHR ''a'', CHR ''b''], start = 0, finals = [],
     transitions = [0 \<mapsto> RowObject [CHR ''a'' \<mapsto> 1, CHR ''b'' \<mapsto> 1],
                    1 \<mapsto> RowObject [CHR ''a'' \<mapsto> 1, CHR ''b'' \<mapsto> 1]] \<rparr>"

definition nonEmptyDFA :: dfa where
  "nonEmptyDFA = \<lparr> states = [0, 1], alphabet = [CHR ''a'', CHR ''b''], start = 0, finals = [1],
     transitions = [0 \<mapsto> RowObject [CHR ''a'' \<mapsto> 1, CHR ''b'' \<mapsto> 0],
                    1 \<mapsto> RowObject [CHR ''a'' \<mapsto> 1, CHR ''b'' \<mapsto> 1]] \<rparr>"

text \<open>A two-state automaton whose only symbol is the underscore.\<close>

definition underscoreDFA :: dfa where
  "underscoreDFA = \<lparr> states = [0, 1], alphabet = [CHR ''_''], start = 0, finals = [1],
     transitions = [0 \<mapsto> RowObject [CHR ''_'' \<mapsto> 1],
                    1 \<mapsto> RowObject [CHR ''_'' \<mapsto> 1]] \<rparr>"

text \<open>
  A record whose only state has the transition entry \<open>null\<close>,
  \<open>{states: [0], alphabet: ['a'], start: 0, finals: [], transitions: {0: null}}\<close>.
\<close>

definition nullRowDFA :: dfa where
  "nullRowDFA = \<lparr> states = [0], alphabet = [CHR ''a''], start = 0, finals = [],
     transitions = [0 \<mapsto> RowNullish] \<rparr>"

section \<open>Conversion and simulation (\<open>convertDFAtoTM\<close>, \<open>simulateTM\<close>)\<close>

record tm =
  tm_states :: "state_id list"
  tm_start :: state_id
  tm_finals :: "state_id list"
  dfaTransitions :: table
  blank :: symbol

definition convertDFAtoTM :: "dfa \<Rightarrow> tm" where
  "convertDFAtoTM d =
     \<lparr> tm_states = states d, tm_start = start d, tm_finals = finals d,
       dfaTransitions = transitions d, blank = CHR ''_'' \<rparr>"

datatype verdict = ACCEPT | REJECT

text \<open>
  The source formats every configuration into one string,
  \<open>State=<state> | Tape="<tape>"\<close>, a line with the head marker, and the action. The
  model keeps the four interpolated values: the state, the tape, the head position (the
  number of spaces before the marker) and the action, which is \<open>Start\<close>, a read with the
  symbol and the next state, or the decision.
\<close>

datatype action = Start | Read symbol js_state | Decide verdict

record config =
  cfg_state :: js_state
  cfg_tape :: string
  cfg_head :: nat
  cfg_action :: action

record sim_result =
  decision :: verdict
  configs :: "config list"

definition logConfig :: "js_state \<Rightarrow> string \<Rightarrow> nat \<Rightarrow> action \<Rightarrow> config list \<Rightarrow> config list" where
  "logConfig st tape head act cfgs =
     cfgs @ [\<lparr> cfg_state = st, cfg_tape = tape, cfg_head = head, cfg_action = act \<rparr>]"

text \<open>\<open>tm.finals.includes(state)\<close>: \<open>undefined\<close> is in no list of state numbers.\<close>

definition js_includes :: "state_id list \<Rightarrow> js_state \<Rightarrow> bool" where
  "js_includes xs st = (case st of None \<Rightarrow> False | Some s \<Rightarrow> s \<in> set xs)"

text \<open>
  \<open>table[state]\<close>: the value stored under a state. For \<open>undefined\<close> the property
  \<open>"undefined"\<close> is looked up, which no table of state numbers has.
\<close>

definition row_of :: "table \<Rightarrow> js_state \<Rightarrow> row_value option" where
  "row_of tr st = (case st of None \<Rightarrow> None | Some s \<Rightarrow> tr s)"

text \<open>
  \<open>table[state][symbol]\<close>: reading a property of \<open>undefined\<close> (no value under the state)
  or of \<open>null\<close> raises a \<open>TypeError\<close>; a number or a boolean has no property named by a
  symbol; a missing entry of an object reads as \<open>undefined\<close>.
\<close>

definition read_entry :: "table \<Rightarrow> js_state \<Rightarrow> symbol \<Rightarrow> js_error + js_state" where
  "read_entry tr st c =
     (case row_of tr st of
        None \<Rightarrow> Inl TypeError
      | Some RowNullish \<Rightarrow> Inl TypeError
      | Some RowPrimitive \<Rightarrow> Inr None
      | Some (RowObject r) \<Rightarrow> Inr (r c))"

text \<open>
  The \<open>while (true)\<close> loop of \<open>simulateTM\<close>. The value read from the table, which may
  be \<open>undefined\<close>, becomes the state.
\<close>

function sim_loop :: "tm \<Rightarrow> string \<Rightarrow> nat \<Rightarrow> js_state \<Rightarrow> config list \<Rightarrow> js_error + sim_result" where
  "sim_loop M tape head st cfgs =
     (let symb = (if head < length tape then tape ! head else blank M) in
      if symb = blank M then
        (let dec = (if js_includes (tm_finals M) st then ACCEPT else REJECT) in
         Inr \<lparr> decision = dec, configs = logConfig st tape head (Decide dec) cfgs \<rparr>)
      else
        (case read_entry (dfaTransitions M) st symb of
           Inl e \<Rightarrow> Inl e
         | Inr nextState \<Rightarrow>
             sim_loop M tape (head + 1) nextState
               (logConfig st tape head (Read symb nextState) cfgs)))"
  by pat_completeness auto
termination
  by (relation "measure (\<lambda>(M, tape, head, st, cfgs). length tape - head)")
     (auto split: if_splits)

definition simulateTM :: "tm \<Rightarrow> string \<Rightarrow> js_error + sim_result" where
  "simulateTM M input =
     sim_loop M input 0 (Some (tm_start M))
       (logConfig (Some (tm_start M)) input 0 Start [])"

text \<open>
  The number of iterations of the loop of \<open>simulateTM\<close>: one for every pass through the
  loop body, the pass that returns (or raises) included. It follows the loop of
  \<open>sim_loop\<close> branch by branch.
\<close>

function sim_steps :: "tm \<Rightarrow> string \<Rightarrow> nat \<Rightarrow> js_state \<Rightarrow> nat" where
  "sim_steps M tape head st =
     (let symb = (if head < length tape then tape ! head else blank M) in
      if symb = blank M then 1
      else
        (case read_entry (dfaTransitions M) st symb of
           Inl e \<Rightarrow> 1
         | Inr nextState \<Rightarrow> 1 + sim_steps M tape (head + 1) nextState))"
  by pat_completeness auto
termination
  by (relation "measure (\<lambda>(M, tape, head, st). length tape - head)")
     (auto split: if_splits)

definition simulateTM_steps :: "tm \<Rightarrow> string \<Rightarrow> nat" where
  "simulateTM_steps M input = sim_steps M input 0 (Some (tm_start M))"

declare sim_loop.simps [simp del] sim_steps.simps [simp del]

text \<open>Projections of the result of a simulation; \<open>None\<close> when it raised.\<close>

definition result_decision :: "js_error + sim_result \<Rightarrow> verdict option" where
  "result_decision x = (case x of Inl e \<Rightarrow> None | Inr r \<Rightarrow> Some (decision r))"

definition result_trace_length :: "js_error + sim_result \<Rightarrow> nat option" where
  "result_trace_length x = (case x of Inl e \<Rightarrow> None | Inr r \<Rightarrow> Some (length (configs r)))"

text \<open>
  The reference semantics of an automaton, in the specification's words: the state
  reached from a state by applying the transition function successively to each symbol
  of the input (\<open>None\<close> where the table has no entry), and the decision the
  specification attaches to that state.
\<close>

fun run_from :: "table \<Rightarrow> state_id \<Rightarrow> string \<Rightarrow> state_id option" where
  "run_from tr s [] = Some s"
| "run_from tr s (c # cs) =
     (case tr s of
        Some (RowObject r) \<Rightarrow> (case r c of None \<Rightarrow> None | Some t \<Rightarrow> run_from tr t cs)
      | _ \<Rightarrow> None)"

definition verdict_of :: "state_id list \<Rightarrow> state_id \<Rightarrow> verdict" where
  "verdict_of fs q = (if q \<in> set fs then ACCEPT else REJECT)"

text \<open>
  A trace entry that records the reading of symbol \<open>c\<close> and the move to the value read
  from the table.
\<close>

definition is_read :: "config \<Rightarrow> symbol \<Rightarrow> bool" where
  "is_read cf c \<longleftrightarrow> (\<exists>t. cfg_action cf = Read c t)"

section \<open>Emptiness (\<open>dfaRecognizesEmpty\<close>)\<close>

text \<open>
  The \<open>for (const sym of alphabet)\<close> loop of the emptiness check, for the state \<open>st\<close>
  that was taken from the queue. \<open>transitions[state][sym]\<close> raises a \<open>TypeError\<close> when
  the state has no row (or \<open>null\<close> for a row), and reads as \<open>undefined\<close> when the row has
  no entry for the symbol; \<open>undefined\<close> is then added to the visited set and to the queue
  as any other value would be.
\<close>

fun explore :: "table \<Rightarrow> js_state \<Rightarrow> symbol list \<Rightarrow> js_state set \<Rightarrow> js_state list
    \<Rightarrow> js_error + (js_state set \<times> js_state list)" where
  "explore tr st [] visited queue = Inr (visited, queue)"
| "explore tr st (symb # symbs) visited queue =
     (case read_entry tr st symb of
        Inl e \<Rightarrow> Inl e
      | Inr nxt \<Rightarrow>
          if nxt \<notin> visited then explore tr st symbs (insert nxt visited) (queue @ [nxt])
          else explore tr st symbs visited queue)"

text \<open>
  The \<open>while (queue.length > 0)\<close> loop. A table given as a function may describe an
  infinite graph, on which the loop does not end: the result is an \<open>option\<close>, and \<open>None\<close>
  stands for a loop that never returns. Beside the queue and the visited set of the source
  the loop carries the list of the states it has taken from the queue so far, oldest
  first; the source does not keep this list, and nothing in the loop reads it.
\<close>

partial_function (option) bfs_loop ::
  "state_id list \<Rightarrow> table \<Rightarrow> symbol list \<Rightarrow> js_state list \<Rightarrow> js_state set \<Rightarrow> js_state list
     \<Rightarrow> ((js_error + bool) \<times> js_state list) option" where
  "bfs_loop fin tr alph queue visited dequeued =
     (case queue of
        [] \<Rightarrow> Some (Inr True, dequeued)
      | st # rest \<Rightarrow>
          if js_includes fin st then Some (Inr False, dequeued @ [st])
          else
            (case explore tr st alph visited rest of
               Inl e \<Rightarrow> Some (Inl e, dequeued @ [st])
             | Inr (visited', queue') \<Rightarrow>
                 bfs_loop fin tr alph queue' visited' (dequeued @ [st])))"

text \<open>
  The body of the function: the fields \<open>start\<close>, \<open>finals\<close>, \<open>transitions\<close> and \<open>alphabet\<close>
  are taken from the record, the queue and the visited set start with the start state.
\<close>

definition bfs_run :: "dfa \<Rightarrow> ((js_error + bool) \<times> js_state list) option" where
  "bfs_run d =
     bfs_loop (finals d) (transitions d) (alphabet d) [Some (start d)] {Some (start d)} []"

text \<open>
  The function of the source: \<open>Some (Inr b)\<close> when it returns \<open>b\<close>, \<open>Some (Inl e)\<close> when it
  raises \<open>e\<close>. The source defines it twice with the same text; the second definition
  replaces the first.
\<close>

definition dfaRecognizesEmpty :: "dfa \<Rightarrow> (js_error + bool) option" where
  "dfaRecognizesEmpty d = map_option fst (bfs_run d)"

text \<open>The states taken from the queue during a call, in order.\<close>

definition dequeued_states :: "dfa \<Rightarrow> js_state list option" where
  "dequeued_states d = map_option snd (bfs_run d)"

text \<open>
  Reachability in the transition graph, in the specification's words: a state is
  reachable when it is the start state or the target, under an alphabet symbol, of a
  reachable state.
\<close>

inductive reachable :: "dfa \<Rightarrow> state_id \<Rightarrow> bool" for d :: dfa where
  reachable_start: "reachable d (start d)"
| reachable_step:
    "reachable d s \<Longrightarrow> c \<in> set (alphabet d) \<Longrightarrow> transitions d s = Some (RowObject r) \<Longrightarrow>
       r c = Some t \<Longrightarrow> reachable d t"

definition final_reachable :: "dfa \<Rightarrow> bool" where
  "final_reachable d \<longleftrightarrow> (\<exists>f \<in> set (finals d). reachable d f)"

section \<open>Enumeration (\<open>enumerateDFAs\<close>)\<close>

text \<open>
  The shift and the bitwise and of the source work on 32-bit integers: \<open>1 << k\<close> shifts
  by \<open>k mod 32\<close> and reads the result as a signed 32-bit number, so \<open>1 << 31\<close> is
  \<open>-2147483648\<close> and \<open>1 << 32\<close> is \<open>1\<close>. \<open>js_bit_test msk s\<close> is the truth value of
  \<open>mask & (1 << s)\<close>, which is true when the result is not zero.
\<close>

definition js_shl1 :: "nat \<Rightarrow> int" where
  "js_shl1 k = sint (push_bit (k mod 32) (1 :: 32 word))"

definition js_bit_test :: "nat \<Rightarrow> nat \<Rightarrow> bool" where
  "js_bit_test msk s \<longleftrightarrow> (word_of_nat msk :: 32 word) AND push_bit (s mod 32) 1 \<noteq> 0"

text \<open>
  \<open>incrementDigits\<close>: the loop over the positions \<open>i = 0, 1, ...\<close> of the digit array,
  which the source updates in place. The result is the returned boolean and the array
  after the call. The array has \<open>digitsLen\<close> cells from its creation on.
\<close>

fun incrementDigits :: "nat \<Rightarrow> nat list \<Rightarrow> bool \<times> nat list" where
  "incrementDigits n [] = (False, [])"
| "incrementDigits n (x # xs) =
     (if x + 1 < n then (True, (x + 1) # xs)
      else (case incrementDigits n xs of (again, xs') \<Rightarrow> (again, 0 # xs')))"

text \<open>
  The two nested loops that fill \<open>transitions\<close>: \<open>row[alphabet[k]] = digits[s * symCount + k]\<close>
  for \<open>k\<close> from \<open>0\<close> to \<open>symCount - 1\<close>, and \<open>transitions[s] = row\<close> for \<open>s\<close> from \<open>0\<close> to
  \<open>n - 1\<close>. The index \<open>s * symCount + k\<close> is below \<open>digitsLen = n * symCount\<close>.
\<close>

definition build_row :: "symbol list \<Rightarrow> nat list \<Rightarrow> nat \<Rightarrow> row" where
  "build_row alph digits s =
     fold (\<lambda>k r. r(alph ! k \<mapsto> digits ! (s * length alph + k))) [0..<length alph] Map.empty"

definition build_transitions :: "symbol list \<Rightarrow> nat \<Rightarrow> nat list \<Rightarrow> table" where
  "build_transitions alph n digits =
     fold (\<lambda>s tr. tr(s \<mapsto> RowObject (build_row alph digits s))) [0..<n] Map.empty"

text \<open>The loop \<open>for (let s = 0; s < n; s++) if (mask & (1 << s)) finals.push(s)\<close>.\<close>

definition finals_of_mask :: "nat \<Rightarrow> nat \<Rightarrow> state_id list" where
  "finals_of_mask n msk = filter (js_bit_test msk) [0..<n]"

text \<open>
  The loop \<open>for (let mask = 0; mask < finalCount; mask++)\<close> with \<open>finalCount = 1 << n\<close>:
  the automata it yields, in order. It yields nothing when \<open>finalCount\<close> is not positive.
\<close>

definition emit :: "symbol list \<Rightarrow> nat \<Rightarrow> table \<Rightarrow> dfa list" where
  "emit alph n tr =
     map (\<lambda>msk. \<lparr> states = [0..<n], alphabet = alph, start = 0,
                    finals = finals_of_mask n msk, transitions = tr \<rparr>)
       [0..<nat (js_shl1 n)]"

text \<open>
  The value of a digit array read as a number in base \<open>n\<close>, least significant digit
  first, every digit capped at \<open>n - 1\<close>. It measures the progress of the odometer.
\<close>

fun odometer_rank :: "nat \<Rightarrow> nat list \<Rightarrow> nat" where
  "odometer_rank n [] = 0"
| "odometer_rank n (x # xs) = min x (n - 1) + n * odometer_rank n xs"

text \<open>
  The loop \<open>while (moreTransitions)\<close>: the automata yielded from the current digit
  array on, until \<open>incrementDigits\<close> returns \<open>false\<close>.
\<close>

function transitions_loop :: "symbol list \<Rightarrow> nat \<Rightarrow> nat list \<Rightarrow> dfa list" where
  "transitions_loop alph n digits =
     emit alph n (build_transitions alph n digits) @
     (case incrementDigits n digits of
        (True, digits') \<Rightarrow> transitions_loop alph n digits'
      | (False, digits') \<Rightarrow> [])"
  by pat_completeness auto
termination
proof -
  have len: "length (snd (incrementDigits n xs)) = length xs" for n xs
    by (induction xs) (auto split: prod.splits)
  have step: "fst (incrementDigits n xs) \<Longrightarrow> 0 < n \<and>
      odometer_rank n (snd (incrementDigits n xs)) = Suc (odometer_rank n xs)" for n xs
  proof (induction xs)
    case Nil
    then show ?case by simp
  next
    case (Cons a xs)
    show ?case
    proof (cases "a + 1 < n")
      case True
      then show ?thesis by simp
    next
      case False
      obtain b xs' where e: "incrementDigits n xs = (b, xs')"
        by (cases "incrementDigits n xs")
      with Cons.prems False have b by simp
      with Cons.IH e have n: "0 < n" and r: "odometer_rank n xs' = Suc (odometer_rank n xs)"
        by auto
      from False n have m: "min a (n - 1) = n - 1" by simp
      have "n * Suc (odometer_rank n xs) = Suc (n - 1 + n * odometer_rank n xs)"
        using n by (simp add: algebra_simps)
      with e n r m False show ?thesis by simp
    qed
  qed
  have bound: "0 < n \<Longrightarrow> odometer_rank n xs < n ^ length xs" for n xs
  proof (induction xs)
    case Nil
    then show ?case by simp
  next
    case (Cons a xs)
    then have "odometer_rank n xs + 1 \<le> n ^ length xs" by simp
    then have "n * (odometer_rank n xs + 1) \<le> n * n ^ length xs"
      by (rule mult_le_mono2)
    moreover have "min a (n - 1) < n" using Cons.prems by simp
    ultimately show ?case by (simp add: algebra_simps)
  qed
  have dec: "n ^ length ys - odometer_rank n ys < n ^ length xs - odometer_rank n xs"
    if "(True, ys) = incrementDigits n xs" for n xs ys
  proof -
    from that have f: "fst (incrementDigits n xs)" and y: "ys = snd (incrementDigits n xs)"
      by (metis fst_conv, metis snd_conv)
    from step [OF f] y have n: "0 < n" and r: "odometer_rank n ys = Suc (odometer_rank n xs)"
      by auto
    from bound [OF n, of ys] r len [of n xs] y show ?thesis by simp
  qed
  show ?thesis
    by (relation "measure (\<lambda>(alph, n, digits). n ^ length digits - odometer_rank n digits)")
       (auto intro: dec)
qed

declare transitions_loop.simps [simp del]

text \<open>One pass through the body of \<open>while (true)\<close>, for the state count \<open>n\<close>.\<close>

definition enumerate_round :: "symbol list \<Rightarrow> nat \<Rightarrow> dfa list" where
  "enumerate_round alph n = transitions_loop alph n (replicate (n * length alph) 0)"

text \<open>
  The generator never returns. \<open>enumerateDFAs alph rounds\<close> is the list of the automata
  it yields during the first \<open>rounds\<close> passes through the body of \<open>while (true)\<close>, that is
  for the state counts \<open>1, ..., rounds\<close>; the sequence of the generator is the limit of
  these lists, each of which is a prefix of the next. The numbers of the source are
  modelled without the limits of double precision and of the length of an array.
\<close>

fun outer_loop :: "symbol list \<Rightarrow> nat \<Rightarrow> nat \<Rightarrow> dfa list" where
  "outer_loop alph n 0 = []"
| "outer_loop alph n (Suc k) = enumerate_round alph n @ outer_loop alph (n + 1) k"

definition enumerateDFAs :: "symbol list \<Rightarrow> nat \<Rightarrow> dfa list" where
  "enumerateDFAs alph rounds = outer_loop alph 1 rounds"

text \<open>The two automata with the single state \<open>0\<close> over the alphabet of the source.\<close>

definition singleStateDFA :: "state_id list \<Rightarrow> dfa" where
  "singleStateDFA fs =
     \<lparr> states = [0], alphabet = [CHR ''a'', CHR ''b''], start = 0, finals = fs,
       transitions = [0 \<mapsto> RowObject [CHR ''a'' \<mapsto> 0, CHR ''b'' \<mapsto> 0]] \<rparr>"

text \<open>
  The automaton with the states \<open>0, ..., 30\<close> over the empty alphabet, with the start
  state \<open>0\<close>, no final state and an empty row for every state.
\<close>

definition thirtyOneStateDFA :: dfa where
  "thirtyOneStateDFA =
     \<lparr> states = [0..<31], alphabet = [], start = 0, finals = [],
       transitions = (\<lambda>s. if s < 31 then Some (RowObject Map.empty) else None) \<rparr>"

text \<open>
  The records the enumerator builds for the state count \<open>n\<close>: the states are listed as
  \<open>0, ..., n - 1\<close>, the start state is \<open>0\<close>, the final states are listed in increasing
  order, and the table has a row exactly for the states, with an entry exactly for the
  alphabet symbols, whose targets are states.
\<close>

definition canonical_dfa :: "symbol list \<Rightarrow> nat \<Rightarrow> dfa \<Rightarrow> bool" where
  "canonical_dfa alph n d \<longleftrightarrow>
     states d = [0..<n] \<and> alphabet d = alph \<and> start d = 0 \<and>
     sorted_wrt (<) (finals d) \<and> (\<forall>f \<in> set (finals d). f < n) \<and>
     (\<forall>s. n \<le> s \<longrightarrow> transitions d s = None) \<and>
     (\<forall>s < n. \<exists>r. transitions d s = Some (RowObject r) \<and>
        (\<forall>c. c \<notin> set alph \<longrightarrow> r c = None) \<and>
        (\<forall>c \<in> set alph. \<exists>t < n. r c = Some t))"

text \<open>The entries of a row; a value that is not an object has none.\<close>

definition row_entries :: "row_value \<Rightarrow> row" where
  "row_entries v = (case v of RowObject r \<Rightarrow> r | RowNullish \<Rightarrow> Map.empty | RowPrimitive \<Rightarrow> Map.empty)"

text \<open>The digit array that encodes the table of an automaton with \<open>n\<close> states.\<close>

definition digits_of_table :: "symbol list \<Rightarrow> nat \<Rightarrow> table \<Rightarrow> nat list" where
  "digits_of_table alph n tr =
     map (\<lambda>i. the (row_entries (the (tr (i div length alph))) (alph ! (i mod length alph))))
       [0..<n * length alph]"

section \<open>Properties of the validator\<close>

lemma finals_pass_iff: "finals_pass S fs \<longleftrightarrow> (\<forall>f \<in> set fs. f \<in> S)"
  by (induction fs) auto

lemma symbols_pass_iff:
  "symbols_pass S v cs = Inr True \<longleftrightarrow>
     (\<forall>c \<in> set cs. \<exists>r t. v = RowObject r \<and> r c = Some t \<and> t \<in> S)"
  by (induction cs) (auto split: option.splits row_value.splits)

lemma states_pass_iff:
  "states_pass S alph tr ss = Inr True \<longleftrightarrow>
     (\<forall>s \<in> set ss. \<exists>v. tr s = Some v \<and>
        (\<forall>c \<in> set alph. \<exists>r t. v = RowObject r \<and> r c = Some t \<and> t \<in> S))"
proof (induction ss)
  case Nil
  show ?case by simp
next
  case (Cons s ss)
  show ?case
  proof (cases "tr s")
    case None
    then show ?thesis by simp
  next
    case (Some v)
    show ?thesis
    proof (cases "symbols_pass S v alph")
      case (Inl e)
      then have "symbols_pass S v alph \<noteq> Inr True" by simp
      then have "\<not> (\<forall>c \<in> set alph. \<exists>r t. v = RowObject r \<and> r c = Some t \<and> t \<in> S)"
        using symbols_pass_iff [of S v alph] by blast
      with Inl Some show ?thesis by auto
    next
      case (Inr ok)
      with Some Cons.IH symbols_pass_iff [of S v alph] show ?thesis by auto
    qed
  qed
qed

text \<open>\<open>validateDFA\<close> returns \<open>1\<close> exactly on the well-formed records.\<close>

lemma validateDFA_well_formed: "validateDFA d = Inr 1 \<longleftrightarrow> well_formed d"
proof -
  have "validateDFA d = Inr 1 \<longleftrightarrow>
      start d \<in> set (states d) \<and> finals_pass (set (states d)) (finals d) \<and>
      states_pass (set (states d)) (alphabet d) (transitions d) (states d) = Inr True"
    unfolding validateDFA_def Let_def by (auto split: sum.splits)
  then show ?thesis
    unfolding well_formed_def by (simp add: finals_pass_iff states_pass_iff)
qed

text \<open>
  On a record that is not well-formed it returns \<open>0\<close> or raises a \<open>TypeError\<close>; it
  returns in any case when every value stored in the table is an object.
\<close>

lemma validateDFA_range:
  "validateDFA d = Inr 0 \<or> validateDFA d = Inr 1 \<or> validateDFA d = Inl TypeError"
proof (cases "validateDFA d")
  case (Inl e)
  then show ?thesis by (cases e) simp
next
  case (Inr k)
  then show ?thesis
    unfolding validateDFA_def Let_def by (auto split: if_splits sum.splits)
qed

lemma symbols_pass_object: "\<exists>ok. symbols_pass S (RowObject r) cs = Inr ok"
proof (induction cs)
  case Nil
  show ?case by auto
next
  case (Cons c cs)
  then obtain ok where ok: "symbols_pass S (RowObject r) cs = Inr ok" by blast
  show ?case
  proof (cases "r c")
    case None
    then show ?thesis by auto
  next
    case (Some t)
    show ?thesis
    proof (cases "t \<in> S")
      case True
      with Some ok show ?thesis by (intro exI [of _ ok]) simp
    next
      case False
      with Some show ?thesis by (intro exI [of _ False]) simp
    qed
  qed
qed

lemma states_pass_object:
  "\<forall>s v. tr s = Some v \<longrightarrow> (\<exists>r. v = RowObject r) \<Longrightarrow> \<exists>ok. states_pass S alph tr ss = Inr ok"
proof (induction ss)
  case Nil
  show ?case by auto
next
  case (Cons s ss)
  show ?case
  proof (cases "tr s")
    case None
    then show ?thesis by auto
  next
    case (Some v)
    with Cons.prems obtain r where v: "v = RowObject r" by blast
    from symbols_pass_object [of S r alph] obtain ok where
      "symbols_pass S (RowObject r) alph = Inr ok" by blast
    from Cons.IH [OF Cons.prems] obtain ok' where
      ok': "states_pass S alph tr ss = Inr ok'" by blast
    show ?thesis
    proof (cases ok)
      case True
      with Some v \<open>symbols_pass S (RowObject r) alph = Inr ok\<close> ok' show ?thesis
        by (intro exI [of _ ok']) simp
    next
      case False
      with Some v \<open>symbols_pass S (RowObject r) alph = Inr ok\<close> show ?thesis
        by (intro exI [of _ False]) simp
    qed
  qed
qed

lemma validateDFA_object_rows:
  assumes "\<forall>s v. transitions d s = Some v \<longrightarrow> (\<exists>r. v = RowObject r)"
  shows "validateDFA d = Inr (if well_formed d then 1 else 0)"
proof -
  from states_pass_object [OF assms, of "set (states d)" "alphabet d" "states d"]
  have "validateDFA d \<noteq> Inl TypeError"
    unfolding validateDFA_def Let_def by (auto split: if_splits)
  with validateDFA_range [of d] validateDFA_well_formed [of d] show ?thesis by auto
qed

text \<open>The rows of a well-formed record.\<close>

lemma well_formed_entry:
  assumes "well_formed d" and "s \<in> set (states d)" and "c \<in> set (alphabet d)"
  shows "\<exists>r t. transitions d s = Some (RowObject r) \<and> r c = Some t \<and> t \<in> set (states d)"
proof -
  from assms(1) have "\<forall>s' \<in> set (states d). \<exists>v. transitions d s' = Some v \<and>
      (\<forall>c' \<in> set (alphabet d). \<exists>r t.
         v = RowObject r \<and> r c' = Some t \<and> t \<in> set (states d))"
    by (simp add: well_formed_def)
  from this assms(2) have "\<exists>v. transitions d s = Some v \<and>
      (\<forall>c' \<in> set (alphabet d). \<exists>r t.
         v = RowObject r \<and> r c' = Some t \<and> t \<in> set (states d))"
    by (rule bspec)
  then obtain v where v: "transitions d s = Some v"
    and e: "\<forall>c' \<in> set (alphabet d). \<exists>r t.
         v = RowObject r \<and> r c' = Some t \<and> t \<in> set (states d)"
    by (elim exE conjE)
  from e assms(3) have "\<exists>r t. v = RowObject r \<and> r c = Some t \<and> t \<in> set (states d)"
    by (rule bspec)
  with v show ?thesis by auto
qed

lemma well_formed_row:
  assumes "well_formed d" and "s \<in> set (states d)" and "alphabet d \<noteq> []"
  shows "\<exists>r. transitions d s = Some (RowObject r) \<and>
           (\<forall>c \<in> set (alphabet d). \<exists>t. r c = Some t \<and> t \<in> set (states d))"
proof -
  from assms(3) obtain c0 where c0: "c0 \<in> set (alphabet d)" by (cases "alphabet d") auto
  from well_formed_entry [OF assms(1,2) c0] obtain r where
    r: "transitions d s = Some (RowObject r)" by blast
  have "\<exists>t. r c = Some t \<and> t \<in> set (states d)" if "c \<in> set (alphabet d)" for c
    using well_formed_entry [OF assms(1,2) that] r by auto
  with r show ?thesis by blast
qed

text \<open>
  Claim C3 states that \<open>validateDFA\<close> never raises and returns false whenever a clause of
  well-formedness is violated. The code returns \<open>1\<close> exactly on the well-formed records
  (\<open>validateDFA_well_formed\<close> above) and returns \<open>0\<close> on a record that has no entry for a
  state, but it departs from the claim where the entry of a state is present and is not
  an object: on the record with \<open>transitions = {0: null}\<close> the test
  \<open>symbol in transitions[s]\<close> raises a \<open>TypeError\<close>, while the same record without the
  entry gets \<open>0\<close>.
\<close>

theorem validateDFA_raises_on_null_row:
  "validateDFA nullRowDFA = Inl TypeError \<and>
   validateDFA (nullRowDFA\<lparr>transitions := Map.empty\<rparr>) = Inr 0"
  by (simp add: validateDFA_def nullRowDFA_def)

section \<open>Properties of the converter\<close>

text \<open>
  Claim C8, as stated, fails: the blank symbol is the constant underscore, which is a
  symbol of the alphabet of \<open>underscoreDFA\<close>.
\<close>

theorem convertDFAtoTM_blank_counterexample:
  "blank (convertDFAtoTM underscoreDFA) \<in> set (alphabet underscoreDFA)"
  by (simp add: convertDFAtoTM_def underscoreDFA_def)

text \<open>
  Claim C8, amended. For every automaton, \<open>convertDFAtoTM\<close> returns a decider whose
  states, start state, final states and transition table are those of the automaton,
  unchanged, and whose blank symbol is the underscore; the blank symbol is distinct from
  every symbol of the alphabet exactly when the underscore is not in the alphabet.
\<close>

theorem convertDFAtoTM_fields:
  "tm_states (convertDFAtoTM d) = states d \<and>
   tm_start (convertDFAtoTM d) = start d \<and>
   tm_finals (convertDFAtoTM d) = finals d \<and>
   dfaTransitions (convertDFAtoTM d) = transitions d \<and>
   blank (convertDFAtoTM d) = CHR ''_'' \<and>
   ((\<forall>c \<in> set (alphabet d). blank (convertDFAtoTM d) \<noteq> c) \<longleftrightarrow>
      CHR ''_'' \<notin> set (alphabet d))"
  by (auto simp: convertDFAtoTM_def)

theorem convertDFAtoTM_fields_witness:
  "CHR ''_'' \<notin> set (alphabet validDFA) \<and>
   blank (convertDFAtoTM validDFA) \<notin> set (alphabet validDFA) \<and>
   dfaTransitions (convertDFAtoTM validDFA) = transitions validDFA"
  using convertDFAtoTM_fields [of validDFA]
  by (auto simp: validDFA_def)

section \<open>Properties of the simulator\<close>

text \<open>
  The loop of the simulator on the decider of a well-formed automaton, from any head
  position on, when the rest of the tape is over the alphabet and holds no underscore.
\<close>

lemma read_entry_object:
  "tr s = Some (RowObject r) \<Longrightarrow> read_entry tr (Some s) c = Inr (r c)"
  by (simp add: read_entry_def row_of_def)

lemma sim_loop_valid:
  assumes wf: "well_formed d"
  shows "s \<in> set (states d) \<Longrightarrow> head \<le> length tape \<Longrightarrow>
     set (drop head tape) \<subseteq> set (alphabet d) \<Longrightarrow> CHR ''_'' \<notin> set (drop head tape) \<Longrightarrow>
     \<exists>q mids. run_from (transitions d) s (drop head tape) = Some q \<and> q \<in> set (states d) \<and>
       sim_loop (convertDFAtoTM d) tape head (Some s) cfgs =
         Inr \<lparr> decision = verdict_of (finals d) q,
               configs = cfgs @ mids @
                 [\<lparr> cfg_state = Some q, cfg_tape = tape, cfg_head = length tape,
                    cfg_action = Decide (verdict_of (finals d) q) \<rparr>] \<rparr> \<and>
       list_all2 is_read mids (drop head tape) \<and>
       sim_steps (convertDFAtoTM d) tape head (Some s) = length tape - head + 1"
proof (induction "length tape - head" arbitrary: head s cfgs)
  case 0
  then have h: "head = length tape" by simp
  show ?case
    using "0.prems"(1)
    apply (subst sim_loop.simps, subst sim_steps.simps)
    apply (simp add: h convertDFAtoTM_def logConfig_def js_includes_def verdict_of_def)
    done
next
  case (Suc n)
  then have lt: "head < length tape" by simp
  then have dr: "drop head tape = tape ! head # drop (Suc head) tape"
    by (simp add: Cons_nth_drop_Suc)
  let ?c = "tape ! head"
  from Suc.prems dr have cin: "?c \<in> set (alphabet d)" and cnb: "?c \<noteq> CHR ''_''"
    by auto
  from well_formed_entry [OF wf Suc.prems(1) cin] obtain r t where
    r: "transitions d s = Some (RowObject r)" and t: "r ?c = Some t"
    and tin: "t \<in> set (states d)"
    by blast
  have rd: "read_entry (dfaTransitions (convertDFAtoTM d)) (Some s) ?c = Inr (Some t)"
    using read_entry_object [of "transitions d" s r ?c] r t by (simp add: convertDFAtoTM_def)
  have n: "n = length tape - Suc head" using Suc.hyps(2) by simp
  have sub: "set (drop (Suc head) tape) \<subseteq> set (alphabet d)"
    and nb: "CHR ''_'' \<notin> set (drop (Suc head) tape)"
    using Suc.prems dr by auto
  from Suc.hyps(1) [OF n tin _ sub nb,
      of "logConfig (Some s) tape head (Read ?c (Some t)) cfgs"] lt
  obtain q mids where
    q: "run_from (transitions d) t (drop (Suc head) tape) = Some q" "q \<in> set (states d)"
    and sl: "sim_loop (convertDFAtoTM d) tape (Suc head) (Some t)
               (logConfig (Some s) tape head (Read ?c (Some t)) cfgs) =
             Inr \<lparr> decision = verdict_of (finals d) q,
               configs = logConfig (Some s) tape head (Read ?c (Some t)) cfgs @ mids @
                 [\<lparr> cfg_state = Some q, cfg_tape = tape, cfg_head = length tape,
                    cfg_action = Decide (verdict_of (finals d) q) \<rparr>] \<rparr>"
    and la: "list_all2 is_read mids (drop (Suc head) tape)"
    and st: "sim_steps (convertDFAtoTM d) tape (Suc head) (Some t) = length tape - Suc head + 1"
    by auto
  let ?cf = "\<lparr> cfg_state = Some s, cfg_tape = tape, cfg_head = head,
                cfg_action = Read ?c (Some t) \<rparr>"
  have 1: "run_from (transitions d) s (drop head tape) = Some q"
    by (simp add: dr r t q)
  have 2: "sim_loop (convertDFAtoTM d) tape head (Some s) cfgs =
         Inr \<lparr> decision = verdict_of (finals d) q,
               configs = cfgs @ (?cf # mids) @
                 [\<lparr> cfg_state = Some q, cfg_tape = tape, cfg_head = length tape,
                    cfg_action = Decide (verdict_of (finals d) q) \<rparr>] \<rparr>"
    apply (subst sim_loop.simps)
    using lt cnb rd sl
    apply (simp add: convertDFAtoTM_def logConfig_def)
    done
  have 3: "list_all2 is_read (?cf # mids) (drop head tape)"
    using la by (simp add: dr is_read_def)
  have 4: "sim_steps (convertDFAtoTM d) tape head (Some s) = length tape - head + 1"
    apply (subst sim_steps.simps)
    using lt cnb rd st
    apply (simp add: convertDFAtoTM_def)
    done
  from 1 2 3 4 q(2) show ?case by blast
qed

lemma simulateTM_valid:
  assumes "validateDFA d = Inr 1" and "set input \<subseteq> set (alphabet d)" and "CHR ''_'' \<notin> set input"
  shows "\<exists>q mids. run_from (transitions d) (start d) input = Some q \<and>
       simulateTM (convertDFAtoTM d) input =
         Inr \<lparr> decision = verdict_of (finals d) q,
               configs =
                 \<lparr> cfg_state = Some (start d), cfg_tape = input, cfg_head = 0,
                   cfg_action = Start \<rparr> # mids @
                 [\<lparr> cfg_state = Some q, cfg_tape = input, cfg_head = length input,
                    cfg_action = Decide (verdict_of (finals d) q) \<rparr>] \<rparr> \<and>
       list_all2 is_read mids input \<and>
       simulateTM_steps (convertDFAtoTM d) input = length input + 1"
proof -
  from assms(1) have wf: "well_formed d" using validateDFA_well_formed by blast
  then have s: "start d \<in> set (states d)" by (simp add: well_formed_def)
  have ts: "tm_start (convertDFAtoTM d) = start d" by (simp add: convertDFAtoTM_def)
  from sim_loop_valid [OF wf s, of 0 input
      "logConfig (Some (start d)) input 0 Start []"] assms(2,3)
  show ?thesis
    unfolding simulateTM_def simulateTM_steps_def ts
    by (simp add: logConfig_def) blast
qed

text \<open>
  Claim C1, as stated, fails when the underscore is a symbol of the alphabet: on
  \<open>underscoreDFA\<close>, which passes validation, the input of one underscore is over the
  alphabet and leads from the start state to the final state \<open>1\<close>, and the simulator
  rejects it.
\<close>

theorem simulateTM_decision_counterexample:
  "validateDFA underscoreDFA = Inr 1 \<and>
   set ''_'' \<subseteq> set (alphabet underscoreDFA) \<and>
   run_from (transitions underscoreDFA) (start underscoreDFA) ''_'' = Some 1 \<and>
   verdict_of (finals underscoreDFA) 1 = ACCEPT \<and>
   result_decision (simulateTM (convertDFAtoTM underscoreDFA) ''_'') = Some REJECT"
  by (simp add: validateDFA_def underscoreDFA_def verdict_of_def result_decision_def
      simulateTM_def convertDFAtoTM_def sim_loop.simps js_includes_def logConfig_def Let_def)

text \<open>
  Claim C1, amended. For the decider of every automaton that passes validation and
  every input string over its alphabet that holds no underscore (the blank symbol), the
  simulation returns, and its decision is \<open>ACCEPT\<close> if the state reached from the start
  state by applying the transition function to the input symbols in turn is a final
  state, and \<open>REJECT\<close> otherwise.
\<close>

theorem simulateTM_decision:
  assumes "validateDFA d = Inr 1" and "set input \<subseteq> set (alphabet d)" and "CHR ''_'' \<notin> set input"
  shows "\<exists>q. run_from (dfaTransitions (convertDFAtoTM d)) (tm_start (convertDFAtoTM d)) input
             = Some q \<and>
           result_decision (simulateTM (convertDFAtoTM d) input) =
             Some (if q \<in> set (tm_finals (convertDFAtoTM d)) then ACCEPT else REJECT)"
proof -
  from simulateTM_valid [OF assms] obtain q mids where
    "run_from (transitions d) (start d) input = Some q"
    "result_decision (simulateTM (convertDFAtoTM d) input) = Some (verdict_of (finals d) q)"
    by (auto simp: result_decision_def)
  then show ?thesis
    by (simp add: convertDFAtoTM_def verdict_of_def)
qed

theorem simulateTM_decision_witness:
  "validateDFA validDFA = Inr 1 \<and> set ''abba'' \<subseteq> set (alphabet validDFA) \<and>
   CHR ''_'' \<notin> set ''abba'' \<and>
   run_from (dfaTransitions (convertDFAtoTM validDFA)) (tm_start (convertDFAtoTM validDFA))
     ''abba'' = Some 1 \<and>
   result_decision (simulateTM (convertDFAtoTM validDFA) ''abba'') = Some ACCEPT"
  using simulateTM_decision [of validDFA "''abba''"]
  by (simp add: validateDFA_def validDFA_def convertDFAtoTM_def)

text \<open>
  The loop of the simulator on any decider, from any head position on, when the rest of
  the tape holds no blank symbol: if it returns, it has appended one entry for every
  remaining symbol and the entry of the decision, and has made one pass for each of them.
\<close>

lemma sim_loop_shape:
  "head \<le> length tape \<Longrightarrow> blank M \<notin> set (drop head tape) \<Longrightarrow>
     sim_loop M tape head st cfgs = Inr res \<Longrightarrow>
     \<exists>mids final. configs res = cfgs @ mids @ [final] \<and>
       list_all2 is_read mids (drop head tape) \<and>
       cfg_action final = Decide (decision res) \<and>
       sim_steps M tape head st = length tape - head + 1"
proof (induction "length tape - head" arbitrary: head st cfgs)
  case 0
  then have h: "head = length tape" by simp
  from "0.prems"(3) show ?case
    apply (subst (asm) sim_loop.simps)
    apply (subst sim_steps.simps)
    apply (auto simp: h logConfig_def Let_def)
    done
next
  case (Suc n)
  then have lt: "head < length tape" by simp
  then have dr: "drop head tape = tape ! head # drop (Suc head) tape"
    by (simp add: Cons_nth_drop_Suc)
  let ?c = "tape ! head"
  from Suc.prems(2) dr have cnb: "?c \<noteq> blank M" and nb: "blank M \<notin> set (drop (Suc head) tape)"
    by auto
  have n: "n = length tape - Suc head" using Suc.hyps(2) by simp
  from Suc.prems(3) lt cnb obtain nxt where
    rd: "read_entry (dfaTransitions M) st ?c = Inr nxt"
    and sl: "sim_loop M tape (Suc head) nxt (logConfig st tape head (Read ?c nxt) cfgs) = Inr res"
    by (subst (asm) sim_loop.simps) (auto simp: Let_def split: sum.splits)
  from Suc.hyps(1) [OF n _ nb sl] lt obtain mids final where
    c: "configs res = logConfig st tape head (Read ?c nxt) cfgs @ mids @ [final]"
    and la: "list_all2 is_read mids (drop (Suc head) tape)"
    and fa: "cfg_action final = Decide (decision res)"
    and st: "sim_steps M tape (Suc head) nxt = length tape - Suc head + 1"
    by auto
  let ?cf = "\<lparr> cfg_state = st, cfg_tape = tape, cfg_head = head, cfg_action = Read ?c nxt \<rparr>"
  have 1: "configs res = cfgs @ (?cf # mids) @ [final]"
    using c by (simp add: logConfig_def)
  have 2: "list_all2 is_read (?cf # mids) (drop head tape)"
    using la by (simp add: dr is_read_def)
  have 3: "sim_steps M tape head st = length tape - head + 1"
    apply (subst sim_steps.simps)
    using lt cnb rd st
    apply (simp add: Let_def)
    done
  from 1 2 fa 3 show ?case by blast
qed

text \<open>
  Claim C6, as stated, fails. An input may hold the underscore: on \<open>underscoreDFA\<close>,
  which passes validation, the input of one underscore is over the alphabet, the
  simulation halts in its first pass, and the trace has two entries, not three. And the
  simulation may raise: on the example automaton of the source and the input \<open>ca\<close> the
  symbol \<open>c\<close> has no entry, the state becomes \<open>undefined\<close>, and the lookup for the next
  symbol raises a \<open>TypeError\<close>.
\<close>

theorem simulateTM_trace_counterexample:
  "validateDFA underscoreDFA = Inr 1 \<and>
   set ''_'' \<subseteq> set (alphabet underscoreDFA) \<and>
   result_trace_length (simulateTM (convertDFAtoTM underscoreDFA) ''_'') = Some 2 \<and>
   simulateTM_steps (convertDFAtoTM underscoreDFA) ''_'' = 1 \<and>
   length ''_'' + 2 = (3 :: nat) \<and>
   validateDFA validDFA = Inr 1 \<and>
   simulateTM (convertDFAtoTM validDFA) ''ca'' = Inl TypeError"
  by (simp add: validateDFA_def validDFA_def underscoreDFA_def result_trace_length_def
      simulateTM_steps_def simulateTM_def convertDFAtoTM_def sim_loop.simps sim_steps.simps
      js_includes_def logConfig_def read_entry_def row_of_def Let_def)

text \<open>
  Claim C6, amended. For the decider of every automaton that passes validation and
  every input string that holds no underscore (the blank symbol): the simulation returns
  when the input is over the alphabet of the automaton, and whenever it returns (it can
  only fail by raising a \<open>TypeError\<close> in a transition lookup) it has halted after exactly
  \<open>length input + 1\<close> passes through its loop, and the trace it returns has exactly
  \<open>length input + 2\<close> entries: the \<open>Start\<close> entry, one entry for every input symbol, in
  order, that records the reading of that symbol, and the entry of the decision.
\<close>

theorem simulateTM_trace:
  assumes "validateDFA d = Inr 1" and "CHR ''_'' \<notin> set input"
  shows "(set input \<subseteq> set (alphabet d) \<longrightarrow>
            (\<exists>r. simulateTM (convertDFAtoTM d) input = Inr r)) \<and>
         (\<forall>r. simulateTM (convertDFAtoTM d) input = Inr r \<longrightarrow>
            (\<exists>first mids final.
               configs r = first # mids @ [final] \<and>
               cfg_action first = Start \<and>
               list_all2 is_read mids input \<and>
               cfg_action final = Decide (decision r) \<and>
               length (configs r) = length input + 2 \<and>
               simulateTM_steps (convertDFAtoTM d) input = length input + 1))"
proof (intro conjI impI allI)
  assume "set input \<subseteq> set (alphabet d)"
  from simulateTM_valid [OF assms(1) this assms(2)]
  show "\<exists>r. simulateTM (convertDFAtoTM d) input = Inr r" by blast
next
  fix r assume r: "simulateTM (convertDFAtoTM d) input = Inr r"
  let ?M = "convertDFAtoTM d"
  let ?first = "\<lparr> cfg_state = Some (tm_start ?M), cfg_tape = input, cfg_head = 0,
                   cfg_action = Start \<rparr>"
  have b: "blank ?M \<notin> set (drop 0 input)"
    using assms(2) by (simp add: convertDFAtoTM_def)
  from r have "sim_loop ?M input 0 (Some (tm_start ?M)) [?first] = Inr r"
    by (simp add: simulateTM_def logConfig_def)
  from sim_loop_shape [OF _ b this] obtain mids final where
    c: "configs r = [?first] @ mids @ [final]"
    and la: "list_all2 is_read mids input"
    and fa: "cfg_action final = Decide (decision r)"
    and st: "sim_steps ?M input 0 (Some (tm_start ?M)) = length input + 1"
    by auto
  from la have "length mids = length input" by (rule list_all2_lengthD)
  with c la fa st show "\<exists>first mids final.
      configs r = first # mids @ [final] \<and> cfg_action first = Start \<and>
      list_all2 is_read mids input \<and> cfg_action final = Decide (decision r) \<and>
      length (configs r) = length input + 2 \<and>
      simulateTM_steps ?M input = length input + 1"
    by (intro exI [of _ ?first] exI [of _ mids] exI [of _ final])
       (simp add: simulateTM_steps_def)
qed

theorem simulateTM_trace_witness:
  "validateDFA validDFA = Inr 1 \<and> CHR ''_'' \<notin> set ''abba'' \<and>
   set ''abba'' \<subseteq> set (alphabet validDFA) \<and>
   result_trace_length (simulateTM (convertDFAtoTM validDFA) ''abba'') = Some 6 \<and>
   simulateTM_steps (convertDFAtoTM validDFA) ''abba'' = 5 \<and>
   CHR ''_'' \<notin> set ''ac'' \<and>
   result_trace_length (simulateTM (convertDFAtoTM validDFA) ''ac'') = Some 4 \<and>
   simulateTM_steps (convertDFAtoTM validDFA) ''ac'' = 3"
proof -
  have v: "validateDFA validDFA = Inr 1"
    by (simp add: validateDFA_def validDFA_def)
  have h: "CHR ''_'' \<notin> set ''abba''" "set ''abba'' \<subseteq> set (alphabet validDFA)"
    "CHR ''_'' \<notin> set ''ac''"
    by (simp_all add: validDFA_def)
  have e: "\<exists>r. simulateTM (convertDFAtoTM validDFA) ''ac'' = Inr r"
    by (simp add: validDFA_def simulateTM_def convertDFAtoTM_def sim_loop.simps
        js_includes_def logConfig_def read_entry_def row_of_def Let_def)
  from simulateTM_trace [OF v h(1)] h(2) have
    "result_trace_length (simulateTM (convertDFAtoTM validDFA) ''abba'') = Some 6"
    "simulateTM_steps (convertDFAtoTM validDFA) ''abba'' = 5"
    by (auto simp: result_trace_length_def)
  moreover from simulateTM_trace [OF v h(3)] e have
    "result_trace_length (simulateTM (convertDFAtoTM validDFA) ''ac'') = Some 4"
    "simulateTM_steps (convertDFAtoTM validDFA) ''ac'' = 3"
    by (auto simp: result_trace_length_def)
  ultimately show ?thesis using v h by simp
qed

section \<open>Properties of the emptiness check\<close>

text \<open>In a well-formed automaton every reachable state is one of its states.\<close>

lemma reachable_in_states:
  assumes "well_formed d" and "reachable d s"
  shows "s \<in> set (states d)"
  using assms(2)
proof (induction rule: reachable.induct)
  case reachable_start
  from assms(1) show ?case by (simp add: well_formed_def)
next
  case (reachable_step s c r t)
  from well_formed_entry [OF assms(1) reachable_step.IH reachable_step.hyps(2)]
    reachable_step.hyps(3,4)
  show ?case by auto
qed

text \<open>
  The inner loop on a state whose lookups do not raise on the symbols it is run on: it
  appends to the queue, without repetition, the values read that were not visited yet,
  and marks them visited.
\<close>

lemma explore_total:
  assumes "\<forall>c \<in> set cs. read_entry tr st c = Inr (g c)"
  shows "\<exists>new. explore tr st cs visited queue = Inr (visited \<union> set new, queue @ new) \<and>
           distinct new \<and> set new \<inter> visited = {} \<and>
           visited \<union> set new = visited \<union> g ` set cs"
  using assms
proof (induction cs arbitrary: visited queue)
  case Nil
  show ?case by simp
next
  case (Cons c cs)
  from Cons.prems have rd: "read_entry tr st c = Inr (g c)"
    and rest: "\<forall>c \<in> set cs. read_entry tr st c = Inr (g c)" by simp_all
  show ?case
  proof (cases "g c \<in> visited")
    case True
    from Cons.IH [OF rest, of visited queue] obtain new where
      "explore tr st cs visited queue = Inr (visited \<union> set new, queue @ new)"
      "distinct new" "set new \<inter> visited = {}" "visited \<union> set new = visited \<union> g ` set cs"
      by blast
    with True rd show ?thesis
      by (intro exI [of _ new]) auto
  next
    case False
    from Cons.IH [OF rest, of "insert (g c) visited" "queue @ [g c]"] obtain new where
      e: "explore tr st cs (insert (g c) visited) (queue @ [g c]) =
           Inr (insert (g c) visited \<union> set new, (queue @ [g c]) @ new)"
      and d: "distinct new" and i: "set new \<inter> insert (g c) visited = {}"
      and u: "insert (g c) visited \<union> set new = insert (g c) visited \<union> g ` set cs"
      by blast
    from False rd e have
      "explore tr st (c # cs) visited queue =
         Inr (visited \<union> set (g c # new), queue @ (g c # new))"
      by simp
    moreover from d i have "distinct (g c # new)" by auto
    moreover from i False have "set (g c # new) \<inter> visited = {}" by auto
    moreover from u have "visited \<union> set (g c # new) = visited \<union> g ` set (c # cs)" by auto
    ultimately show ?thesis by blast
  qed
qed

text \<open>
  The invariant of the \<open>while\<close> loop on a well-formed automaton: the states taken from
  the queue and the states in the queue are pairwise different and are together the
  visited set; every visited state is reachable; the start state is visited; a state
  taken from the queue is not final and all its successors are visited.
\<close>

lemma bfs_loop_correct:
  assumes wf: "well_formed d"
  shows "distinct (dequeued @ queue) \<Longrightarrow> visited = set dequeued \<union> set queue \<Longrightarrow>
     visited \<subseteq> Some ` {s. reachable d s} \<Longrightarrow> Some (start d) \<in> visited \<Longrightarrow>
     (\<forall>s. Some s \<in> set dequeued \<longrightarrow> s \<notin> set (finals d) \<and>
        (\<forall>c \<in> set (alphabet d). \<forall>r t. transitions d s = Some (RowObject r) \<longrightarrow>
           r c = Some t \<longrightarrow> Some t \<in> visited)) \<Longrightarrow>
     \<exists>b log. bfs_loop (finals d) (transitions d) (alphabet d) queue visited dequeued
                = Some (Inr b, log) \<and>
       distinct log \<and> set log \<subseteq> Some ` set (states d) \<and> (b \<longleftrightarrow> \<not> final_reachable d)"
proof (induction "card (Some ` set (states d) - visited) + length queue"
    arbitrary: queue visited dequeued rule: less_induct)
  case less
  let ?R = "Some ` {s. reachable d s}"
  let ?S = "Some ` set (states d)"
  have RS: "?R \<subseteq> ?S" using reachable_in_states [OF wf] by auto
  show ?case
  proof (cases queue)
    case Nil
    have closed: "Some s \<in> visited" if "reachable d s" for s
      using that
    proof (induction rule: reachable.induct)
      case reachable_start
      from less.prems(4) show ?case .
    next
      case (reachable_step s c r t)
      with less.prems(2,5) Nil show ?case by auto
    qed
    have "\<not> final_reachable d"
    proof
      assume "final_reachable d"
      then obtain f where f: "f \<in> set (finals d)" "reachable d f"
        by (auto simp: final_reachable_def)
      from closed [OF f(2)] less.prems(2) Nil have "Some f \<in> set dequeued" by simp
      with less.prems(5) f(1) show False by blast
    qed
    moreover have "set dequeued \<subseteq> ?S" using less.prems(2,3) RS by auto
    moreover have "distinct dequeued" using less.prems(1) by simp
    ultimately show ?thesis
      by (subst bfs_loop.simps) (auto simp: Nil)
  next
    case (Cons st rest)
    with less.prems(2,3) obtain s where st: "st = Some s" and rs: "reachable d s"
      by auto
    have sS: "s \<in> set (states d)" by (rule reachable_in_states [OF wf rs])
    have dq: "distinct (dequeued @ [st])" using less.prems(1) Cons by simp
    have dqS: "set (dequeued @ [st]) \<subseteq> ?S" using less.prems(2,3) RS Cons by auto
    show ?thesis
    proof (cases "s \<in> set (finals d)")
      case True
      with rs have "final_reachable d" by (auto simp: final_reachable_def)
      with True dq dqS show ?thesis
        by (subst bfs_loop.simps) (auto simp: Cons st js_includes_def)
    next
      case False
      define g where
        "g c = (case transitions d s of Some (RowObject r) \<Rightarrow> r c | _ \<Rightarrow> None)" for c
      have gc: "read_entry (transitions d) (Some s) c = Inr (g c) \<and>
          (\<exists>t. g c = Some t \<and> reachable d t)" if "c \<in> set (alphabet d)" for c
      proof -
        from well_formed_entry [OF wf sS that] obtain r t where
          r: "transitions d s = Some (RowObject r)" and t: "r c = Some t" by blast
        from reachable_step [OF rs that r t] r t show ?thesis
          by (simp add: g_def read_entry_def row_of_def)
      qed
      then have "\<forall>c \<in> set (alphabet d). read_entry (transitions d) (Some s) c = Inr (g c)"
        by blast
      from explore_total [OF this, of visited rest] obtain new where
        e: "explore (transitions d) (Some s) (alphabet d) visited rest =
              Inr (visited \<union> set new, rest @ new)"
        and dn: "distinct new" and iv: "set new \<inter> visited = {}"
        and un: "visited \<union> set new = visited \<union> g ` set (alphabet d)"
        by blast
      have newR: "set new \<subseteq> ?R"
      proof
        fix x assume "x \<in> set new"
        with un have "x \<in> g ` set (alphabet d)" using iv by blast
        then obtain c where c: "c \<in> set (alphabet d)" "x = g c" by blast
        with gc [OF c(1)] show "x \<in> ?R" by auto
      qed
      let ?v = "visited \<union> set new"
      let ?q = "rest @ new"
      let ?dq = "dequeued @ [st]"
      have p1: "distinct (?dq @ ?q)"
        using less.prems(1,2) Cons dn iv by auto
      have p2: "?v = set ?dq \<union> set ?q"
        using less.prems(2) Cons by auto
      have p3: "?v \<subseteq> ?R" using less.prems(3) newR by blast
      have p4: "Some (start d) \<in> ?v" using less.prems(4) by blast
      have p5: "\<forall>s'. Some s' \<in> set ?dq \<longrightarrow> s' \<notin> set (finals d) \<and>
        (\<forall>c \<in> set (alphabet d). \<forall>r' t. transitions d s' = Some (RowObject r') \<longrightarrow>
           r' c = Some t \<longrightarrow> Some t \<in> ?v)"
      proof (intro allI impI)
        fix s' assume "Some s' \<in> set ?dq"
        then consider "Some s' \<in> set dequeued" | "s' = s" using st by auto
        then show "s' \<notin> set (finals d) \<and>
          (\<forall>c \<in> set (alphabet d). \<forall>r' t. transitions d s' = Some (RowObject r') \<longrightarrow>
             r' c = Some t \<longrightarrow> Some t \<in> ?v)"
        proof cases
          case 1
          with less.prems(5) show ?thesis by blast
        next
          case 2
          have "Some t \<in> ?v"
            if "c \<in> set (alphabet d)" "transitions d s = Some (RowObject r')" "r' c = Some t"
            for c r' t
          proof -
            from that(2,3) have "g c = Some t" by (simp add: g_def)
            with that(1) have "Some t \<in> g ` set (alphabet d)" by force
            with un show ?thesis by blast
          qed
          with 2 False show ?thesis by blast
        qed
      qed
      have fin: "finite (?S - visited)" by simp
      have sub: "set new \<subseteq> ?S - visited" using newR RS iv by blast
      have "?S - ?v = (?S - visited) - set new" by blast
      then have "card (?S - ?v) = card (?S - visited) - card (set new)"
        using sub by (simp add: card_Diff_subset)
      moreover have "card (set new) = length new" using dn by (rule distinct_card)
      moreover have "length new \<le> card (?S - visited)"
        using card_mono [OF fin sub] dn by (simp add: distinct_card)
      ultimately have m: "card (?S - ?v) + length ?q < card (?S - visited) + length queue"
        using Cons by simp
      from less.hyps [OF m p1 p2 p3 p4 p5] obtain b log where
        "bfs_loop (finals d) (transitions d) (alphabet d) ?q ?v ?dq = Some (Inr b, log)"
        "distinct log" "set log \<subseteq> ?S" "b \<longleftrightarrow> \<not> final_reachable d"
        by blast
      with False e show ?thesis
        by (subst bfs_loop.simps) (auto simp: Cons st js_includes_def)
    qed
  qed
qed

lemma bfs_run_correct:
  assumes "validateDFA d = Inr 1"
  shows "\<exists>log. bfs_run d = Some (Inr (\<not> final_reachable d), log) \<and>
           distinct log \<and> set log \<subseteq> Some ` set (states d)"
proof -
  from assms have wf: "well_formed d" using validateDFA_well_formed by blast
  have "\<exists>b log.
      bfs_loop (finals d) (transitions d) (alphabet d) [Some (start d)] {Some (start d)} []
        = Some (Inr b, log) \<and>
      distinct log \<and> set log \<subseteq> Some ` set (states d) \<and> (b \<longleftrightarrow> \<not> final_reachable d)"
    by (rule bfs_loop_correct [OF wf]) (auto intro: reachable_start)
  then show ?thesis unfolding bfs_run_def by auto
qed

text \<open>
  Claim C2. For every automaton that passes validation, \<open>dfaRecognizesEmpty\<close> returns,
  and it returns \<open>true\<close> if and only if no final state is reachable from the start state
  by transitions over alphabet symbols. In particular it returns \<open>true\<close> when there is
  no final state, and \<open>false\<close> when some final state is reachable.
\<close>

theorem dfaRecognizesEmpty_correct:
  assumes "validateDFA d = Inr 1"
  shows "dfaRecognizesEmpty d = Some (Inr (\<not> final_reachable d)) \<and>
         (finals d = [] \<longrightarrow> dfaRecognizesEmpty d = Some (Inr True)) \<and>
         (final_reachable d \<longrightarrow> dfaRecognizesEmpty d = Some (Inr False))"
proof -
  from bfs_run_correct [OF assms]
  have "dfaRecognizesEmpty d = Some (Inr (\<not> final_reachable d))"
    by (auto simp: dfaRecognizesEmpty_def)
  moreover have "\<not> final_reachable d" if "finals d = []"
    using that by (simp add: final_reachable_def)
  ultimately show ?thesis by simp
qed

theorem dfaRecognizesEmpty_correct_witness:
  "validateDFA emptyDFA = Inr 1 \<and> dfaRecognizesEmpty emptyDFA = Some (Inr True) \<and>
   \<not> final_reachable emptyDFA \<and>
   validateDFA nonEmptyDFA = Inr 1 \<and> dfaRecognizesEmpty nonEmptyDFA = Some (Inr False) \<and>
   final_reachable nonEmptyDFA"
proof -
  have v: "validateDFA emptyDFA = Inr 1" "validateDFA nonEmptyDFA = Inr 1"
    by (simp_all add: validateDFA_def emptyDFA_def nonEmptyDFA_def)
  have e: "dfaRecognizesEmpty emptyDFA = Some (Inr True)"
    by (simp add: dfaRecognizesEmpty_def bfs_run_def bfs_loop.simps emptyDFA_def
        js_includes_def read_entry_def row_of_def)
  have n: "dfaRecognizesEmpty nonEmptyDFA = Some (Inr False)"
    by (simp add: dfaRecognizesEmpty_def bfs_run_def bfs_loop.simps nonEmptyDFA_def
        js_includes_def read_entry_def row_of_def)
  from dfaRecognizesEmpty_correct [OF v(1)] dfaRecognizesEmpty_correct [OF v(2)] v e n
  show ?thesis by simp
qed

text \<open>
  Claim C9. For every automaton that passes validation, the loop of the emptiness
  check ends and the function returns a boolean; no state is taken from the queue
  twice, every state taken from the queue is a state of the automaton, and so the loop
  body runs at most once for each state.
\<close>

theorem dfaRecognizesEmpty_terminates:
  assumes "validateDFA d = Inr 1"
  shows "\<exists>b log. dfaRecognizesEmpty d = Some (Inr b) \<and> dequeued_states d = Some log \<and>
           distinct log \<and> set log \<subseteq> Some ` set (states d) \<and>
           length log \<le> card (set (states d))"
proof -
  from bfs_run_correct [OF assms] obtain log where
    r: "bfs_run d = Some (Inr (\<not> final_reachable d), log)"
    and d: "distinct log" and s: "set log \<subseteq> Some ` set (states d)"
    by blast
  from d have "length log = card (set log)" by (simp add: distinct_card)
  also have "\<dots> \<le> card (Some ` set (states d))" using s by (simp add: card_mono)
  also have "\<dots> \<le> card (set (states d))" by (rule card_image_le) simp
  finally have "length log \<le> card (set (states d))" .
  with r d s show ?thesis
    by (simp add: dfaRecognizesEmpty_def dequeued_states_def)
qed

theorem dfaRecognizesEmpty_terminates_witness:
  "validateDFA emptyDFA = Inr 1 \<and> dequeued_states emptyDFA = Some [Some 0, Some 1] \<and>
   (\<exists>b log. dfaRecognizesEmpty emptyDFA = Some (Inr b) \<and>
      dequeued_states emptyDFA = Some log \<and> distinct log \<and>
      set log \<subseteq> Some ` set (states emptyDFA) \<and>
      length log \<le> card (set (states emptyDFA)))"
proof -
  have v: "validateDFA emptyDFA = Inr 1"
    by (simp add: validateDFA_def emptyDFA_def)
  have q: "dequeued_states emptyDFA = Some [Some 0, Some 1]"
    by (simp add: dequeued_states_def bfs_run_def bfs_loop.simps emptyDFA_def
        js_includes_def read_entry_def row_of_def)
  from dfaRecognizesEmpty_terminates [OF v] v q show ?thesis by blast
qed

text \<open>
  Claim C10. The result of \<open>dfaRecognizesEmpty\<close> does not depend on the field \<open>states\<close>:
  two records that agree on \<open>start\<close>, \<open>finals\<close>, \<open>transitions\<close> and \<open>alphabet\<close> get the
  same result, whatever their lists of states are.
\<close>

theorem dfaRecognizesEmpty_ignores_states:
  assumes "start d = start d'" and "finals d = finals d'"
    and "transitions d = transitions d'" and "alphabet d = alphabet d'"
  shows "dfaRecognizesEmpty d = dfaRecognizesEmpty d'"
  using assms by (simp add: dfaRecognizesEmpty_def bfs_run_def)

theorem dfaRecognizesEmpty_ignores_states_witness:
  "start validDFA = start (validDFA\<lparr>states := [5]\<rparr>) \<and>
   finals validDFA = finals (validDFA\<lparr>states := [5]\<rparr>) \<and>
   transitions validDFA = transitions (validDFA\<lparr>states := [5]\<rparr>) \<and>
   alphabet validDFA = alphabet (validDFA\<lparr>states := [5]\<rparr>) \<and>
   states validDFA \<noteq> states (validDFA\<lparr>states := [5]\<rparr>) \<and>
   dfaRecognizesEmpty validDFA = dfaRecognizesEmpty (validDFA\<lparr>states := [5]\<rparr>)"
  using dfaRecognizesEmpty_ignores_states [of validDFA "validDFA\<lparr>states := [5]\<rparr>"]
  by (simp add: validDFA_def)

section \<open>Properties of the enumerator\<close>

subsection \<open>The odometer\<close>

lemma incrementDigits_length: "length (snd (incrementDigits n xs)) = length xs"
  by (induction xs) (auto split: prod.splits)

lemma incrementDigits_bounded:
  "\<forall>x \<in> set xs. x < n \<Longrightarrow> \<forall>x \<in> set (snd (incrementDigits n xs)). x < n"
  by (induction xs) (auto split: prod.splits)

lemma incrementDigits_True:
  "incrementDigits n xs = (True, ys) \<Longrightarrow> 0 < n \<and> odometer_rank n ys = Suc (odometer_rank n xs)"
proof (induction xs arbitrary: ys)
  case Nil
  then show ?case by simp
next
  case (Cons a xs)
  show ?case
  proof (cases "a + 1 < n")
    case True
    with Cons.prems show ?thesis by auto
  next
    case False
    obtain b xs' where e: "incrementDigits n xs = (b, xs')"
      by (cases "incrementDigits n xs")
    with Cons.prems False have b: b and ys: "ys = 0 # xs'" by auto
    from Cons.IH [of xs'] e b have n: "0 < n"
      and r: "odometer_rank n xs' = Suc (odometer_rank n xs)"
      by auto
    from False n have m: "min a (n - 1) = n - 1" by simp
    have "n * Suc (odometer_rank n xs) = Suc (n - 1 + n * odometer_rank n xs)"
      using n by (simp add: algebra_simps)
    with n r m ys show ?thesis by simp
  qed
qed

lemma incrementDigits_False:
  "incrementDigits n xs = (False, ys) \<Longrightarrow> 0 < n \<Longrightarrow>
     Suc (odometer_rank n xs) = n ^ length xs"
proof (induction xs arbitrary: ys)
  case Nil
  then show ?case by simp
next
  case (Cons a xs)
  obtain b xs' where e: "incrementDigits n xs = (b, xs')"
    by (cases "incrementDigits n xs")
  from Cons.prems(1) have na: "\<not> a + 1 < n"
    by (auto split: if_splits)
  with Cons.prems(1) e have "\<not> b" by auto
  with Cons.IH [of xs'] e Cons.prems(2) have r: "Suc (odometer_rank n xs) = n ^ length xs"
    by simp
  from na Cons.prems(2) have m: "min a (n - 1) = n - 1" by simp
  have "Suc (n - 1 + n * odometer_rank n xs) = n * Suc (odometer_rank n xs)"
    using Cons.prems(2) by (simp add: algebra_simps)
  with r m show ?case by simp
qed

lemma odometer_rank_less: "0 < n \<Longrightarrow> odometer_rank n xs < n ^ length xs"
proof (induction xs)
  case Nil
  then show ?case by simp
next
  case (Cons a xs)
  then have "odometer_rank n xs + 1 \<le> n ^ length xs" by simp
  then have "n * (odometer_rank n xs + 1) \<le> n * n ^ length xs"
    by (rule mult_le_mono2)
  moreover have "min a (n - 1) < n" using Cons.prems by simp
  ultimately show ?case by (simp add: algebra_simps)
qed

lemma odometer_rank_replicate: "odometer_rank n (replicate k 0) = 0"
  by (induction k) auto

lemma odometer_rank_inj:
  "length xs = length ys \<Longrightarrow> \<forall>x \<in> set xs. x < n \<Longrightarrow> \<forall>y \<in> set ys. y < n \<Longrightarrow>
     odometer_rank n xs = odometer_rank n ys \<Longrightarrow> xs = ys"
proof (induction xs ys rule: list_induct2)
  case Nil
  then show ?case by simp
next
  case (Cons x xs y ys)
  from Cons.prems have x: "x < n" and y: "y < n" by auto
  then have mx: "min x (n - 1) = x" and my: "min y (n - 1) = y" by auto
  from Cons.prems(3) mx my
  have eq: "x + n * odometer_rank n xs = y + n * odometer_rank n ys" by simp
  from arg_cong [OF eq, of "\<lambda>k. k mod n"] x y have "x = y" by simp
  moreover from arg_cong [OF eq, of "\<lambda>k. k div n"] x y
  have "odometer_rank n xs = odometer_rank n ys" by simp
  ultimately show ?case using Cons by simp
qed

subsection \<open>The shift and the bit test\<close>

lemma js_shl1_small: "n < 31 \<Longrightarrow> js_shl1 n = 2 ^ n"
proof -
  assume n: "n < 31"
  then have p: "(0 :: 32 word) < 2 ^ n"
    by (simp add: word_greater_zero_iff exp_eq_zero_iff)
  have "sint (2 ^ n :: 32 word) = signed_take_bit 31 (uint (2 ^ n :: 32 word))"
    by (simp add: sint_uint)
  also have "\<dots> = signed_take_bit 31 (2 ^ n :: int)"
    using uint_2p [OF p] by simp
  also have "\<dots> = 2 ^ n"
  proof (rule signed_take_bit_int_eq_self)
    show "- (2 ^ 31) \<le> (2 :: int) ^ n"
      by (rule order_trans [of _ 0]) simp_all
    show "(2 :: int) ^ n < 2 ^ 31"
      using n by (intro power_strict_increasing) simp_all
  qed
  finally show ?thesis using n by (simp add: js_shl1_def)
qed

lemma js_shl1_31: "js_shl1 31 = - 2147483648"
  by (simp add: js_shl1_def)

lemma js_bit_test_small: "s < 32 \<Longrightarrow> js_bit_test msk s \<longleftrightarrow> bit msk s"
  unfolding js_bit_test_def
  by (simp add: and_exp_eq_0_iff_not_bit bit_of_nat_iff)

subsection \<open>The transition table of a digit array\<close>

lemma build_transitions_apply:
  "build_transitions alph n digits s =
     (if s < n then Some (RowObject (build_row alph digits s)) else None)"
  unfolding build_transitions_def
  by (induction n) (auto simp: less_Suc_eq)

lemma fold_upd_upt:
  fixes f :: "nat \<Rightarrow> 'k" and g :: "nat \<Rightarrow> 'v"
  defines "G \<equiv> \<lambda>n. fold (\<lambda>k m. m(f k \<mapsto> g k)) [0..<n] Map.empty"
  shows fold_upd_None: "\<forall>k < n. f k \<noteq> c \<Longrightarrow> G n c = None"
    and fold_upd_Some: "\<exists>k < n. f k = c \<Longrightarrow> \<exists>k < n. f k = c \<and> G n c = Some (g k)"
    and fold_upd_inj: "inj_on f {..<n} \<Longrightarrow> k < n \<Longrightarrow> G n (f k) = Some (g k)"
proof -
  have G0: "G 0 = Map.empty" by (simp add: G_def)
  have GS: "G (Suc j) = (G j)(f j \<mapsto> g j)" for j by (simp add: G_def)
  show "\<forall>k < n. f k \<noteq> c \<Longrightarrow> G n c = None"
    by (induction n) (auto simp: G0 GS)
  show "\<exists>k < n. f k = c \<Longrightarrow> \<exists>k < n. f k = c \<and> G n c = Some (g k)"
  proof (induction n)
    case 0
    then show ?case by simp
  next
    case (Suc n)
    show ?case
    proof (cases "f n = c")
      case True
      then show ?thesis by (intro exI [of _ n]) (simp add: GS)
    next
      case False
      with Suc.prems have "\<exists>k < n. f k = c" by (auto simp: less_Suc_eq)
      from Suc.IH [OF this] obtain k where "k < n" "f k = c" "G n c = Some (g k)"
        by blast
      with False show ?thesis by (intro exI [of _ k]) (simp add: GS)
    qed
  qed
  show "inj_on f {..<n} \<Longrightarrow> k < n \<Longrightarrow> G n (f k) = Some (g k)"
  proof (induction n)
    case 0
    then show ?case by simp
  next
    case (Suc n)
    show ?case
    proof (cases "k = n")
      case True
      then show ?thesis by (simp add: GS)
    next
      case False
      with Suc.prems have k: "k < n" by simp
      from Suc.prems(1) have inj: "inj_on f {..<n}"
        by (rule inj_on_subset) auto
      from Suc.prems(1) k have "f k \<noteq> f n"
        by (auto simp: inj_on_def)
      with Suc.IH [OF inj k] show ?thesis by (simp add: GS)
    qed
  qed
qed

lemma build_row_None: "c \<notin> set alph \<Longrightarrow> build_row alph digits s c = None"
  unfolding build_row_def by (rule fold_upd_None) auto

lemma build_row_Some:
  assumes "c \<in> set alph"
  shows "\<exists>k < length alph. alph ! k = c \<and>
           build_row alph digits s c = Some (digits ! (s * length alph + k))"
proof -
  from assms have "\<exists>k < length alph. alph ! k = c" by (auto simp: in_set_conv_nth)
  from fold_upd_Some [of "length alph" "\<lambda>k. alph ! k" c
      "\<lambda>k. digits ! (s * length alph + k)", OF this]
  show ?thesis by (simp add: build_row_def)
qed

lemma build_row_nth:
  assumes "distinct alph" and "k < length alph"
  shows "build_row alph digits s (alph ! k) = Some (digits ! (s * length alph + k))"
proof -
  from assms(1) have "inj_on (\<lambda>k. alph ! k) {..<length alph}"
    by (auto simp: inj_on_def nth_eq_iff_index_eq)
  from fold_upd_inj [OF this assms(2), of "\<lambda>k. digits ! (s * length alph + k)"]
  show ?thesis by (simp add: build_row_def)
qed

subsection \<open>Every automaton of the enumeration passes validation\<close>

lemma index_in_range:
  assumes "s < n" and "k < (m :: nat)"
  shows "s * m + k < n * m"
proof -
  have "s * m + k < s * m + m" using assms(2) by simp
  also have "\<dots> = Suc s * m" by simp
  also have "\<dots> \<le> n * m" using assms(1) by (intro mult_le_mono1) simp
  finally show ?thesis .
qed

lemma emit_well_formed:
  assumes n: "0 < n" and len: "length digits = n * length alph"
    and bnd: "\<forall>x \<in> set digits. x < n"
    and d: "d \<in> set (emit alph n (build_transitions alph n digits))"
  shows "well_formed d"
proof -
  from d obtain msk where dd:
    "d = \<lparr> states = [0..<n], alphabet = alph, start = 0,
           finals = finals_of_mask n msk, transitions = build_transitions alph n digits \<rparr>"
    by (auto simp: emit_def)
  have row: "\<exists>t. build_row alph digits s c = Some t \<and> t < n"
    if "s < n" "c \<in> set alph" for s c
  proof -
    from build_row_Some [OF that(2), of digits s] obtain k where
      k: "k < length alph" "build_row alph digits s c = Some (digits ! (s * length alph + k))"
      by blast
    from index_in_range [OF that(1) k(1)] len
    have "digits ! (s * length alph + k) \<in> set digits" by simp
    with bnd k(2) show ?thesis by auto
  qed
  show ?thesis
    unfolding well_formed_def dd
    using n row by (auto simp: finals_of_mask_def build_transitions_apply)
qed

lemma transitions_loop_well_formed:
  "0 < n \<Longrightarrow> length digits = n * length alph \<Longrightarrow> \<forall>x \<in> set digits. x < n \<Longrightarrow>
     d \<in> set (transitions_loop alph n digits) \<Longrightarrow> well_formed d"
proof (induction alph n digits rule: transitions_loop.induct)
  case (1 alph n digits)
  obtain b digits' where inc: "incrementDigits n digits = (b, digits')"
    by (cases "incrementDigits n digits")
  from "1.prems"(4) consider
    "d \<in> set (emit alph n (build_transitions alph n digits))"
    | "b" "d \<in> set (transitions_loop alph n digits')"
    by (subst (asm) transitions_loop.simps) (auto simp: inc split: bool.splits)
  then show ?case
  proof cases
    case 1
    with "1.prems" show ?thesis by (auto intro: emit_well_formed)
  next
    case 2
    have l: "length digits' = n * length alph"
      using incrementDigits_length [of n digits] inc "1.prems"(2) by simp
    have b: "\<forall>x \<in> set digits'. x < n"
      using incrementDigits_bounded [OF "1.prems"(3)] inc by simp
    from 2 inc "1.IH" [of True digits', OF _ _ "1.prems"(1) l b] show ?thesis by simp
  qed
qed

lemma enumerate_round_well_formed:
  assumes "0 < n" and "d \<in> set (enumerate_round alph n)"
  shows "well_formed d"
proof (rule transitions_loop_well_formed [OF assms(1)])
  show "d \<in> set (transitions_loop alph n (replicate (n * length alph) 0))"
    using assms(2) by (simp add: enumerate_round_def)
  show "length (replicate (n * length alph) (0 :: nat)) = n * length alph" by simp
  show "\<forall>x \<in> set (replicate (n * length alph) (0 :: nat)). x < n"
    using assms(1) by simp
qed

lemma outer_loop_well_formed:
  "0 < n \<Longrightarrow> d \<in> set (outer_loop alph n k) \<Longrightarrow> well_formed d"
  by (induction k arbitrary: n) (auto intro: enumerate_round_well_formed)

text \<open>
  Claim C5. Every automaton that the enumerator yields, for every alphabet of
  one-character symbols, every state count and every position in the sequence, passes
  validation: \<open>validateDFA\<close> returns \<open>1\<close> on it.
\<close>

theorem enumerateDFAs_valid:
  assumes "d \<in> set (enumerateDFAs alph rounds)"
  shows "validateDFA d = Inr 1"
proof -
  from assms have "well_formed d"
    unfolding enumerateDFAs_def by (intro outer_loop_well_formed [of 1]) simp_all
  then show ?thesis using validateDFA_well_formed by blast
qed

theorem enumerateDFAs_valid_witness:
  "singleStateDFA [0] \<in> set (enumerateDFAs [CHR ''a'', CHR ''b''] 1) \<and>
   validateDFA (singleStateDFA [0]) = Inr 1"
proof -
  have m: "singleStateDFA [0] \<in> set (enumerateDFAs [CHR ''a'', CHR ''b''] 1)"
    by (simp add: enumerateDFAs_def enumerate_round_def transitions_loop.simps emit_def
        js_shl1_def build_transitions_def build_row_def finals_of_mask_def js_bit_test_def
        singleStateDFA_def upt_rec)
  from enumerateDFAs_valid [OF m] m show ?thesis by simp
qed

subsection \<open>The number of automata of a round\<close>

lemma transitions_loop_length:
  "0 < n \<Longrightarrow> length (transitions_loop alph n digits) =
     (n ^ length digits - odometer_rank n digits) * nat (js_shl1 n)"
proof (induction alph n digits rule: transitions_loop.induct)
  case (1 alph n digits)
  obtain b digits' where inc: "incrementDigits n digits = (b, digits')"
    by (cases "incrementDigits n digits")
  have e: "length (emit alph n (build_transitions alph n digits)) = nat (js_shl1 n)"
    by (simp add: emit_def)
  show ?case
  proof (cases b)
    case True
    from incrementDigits_True [of n digits digits'] inc True
    have r: "odometer_rank n digits' = Suc (odometer_rank n digits)" by simp
    have l: "length digits' = length digits"
      using incrementDigits_length [of n digits] inc by simp
    have lt: "odometer_rank n digits' < n ^ length digits'"
      by (rule odometer_rank_less [OF "1.prems"])
    from "1.IH" [of True digits'] inc True "1.prems"
    have "length (transitions_loop alph n digits') =
        (n ^ length digits' - odometer_rank n digits') * nat (js_shl1 n)"
      by simp
    moreover have "n ^ length digits - odometer_rank n digits =
        Suc (n ^ length digits' - odometer_rank n digits')"
      using r l lt by simp
    ultimately show ?thesis
      by (subst transitions_loop.simps) (simp add: inc True e)
  next
    case False
    from incrementDigits_False [of n digits digits'] inc False "1.prems"
    have "n ^ length digits - odometer_rank n digits = 1" by simp
    then show ?thesis
      by (subst transitions_loop.simps) (simp add: inc False e)
  qed
qed

lemma enumerate_round_length:
  assumes "0 < n"
  shows "length (enumerate_round alph n) = n ^ (n * length alph) * nat (js_shl1 n)"
  unfolding enumerate_round_def
  by (simp add: transitions_loop_length [OF assms] odometer_rank_replicate)

text \<open>
  For the state counts \<open>1, ..., 30\<close> a round yields \<open>n ^ (n * |alphabet|) * 2 ^ n\<close>
  automata.
\<close>

lemma enumerate_round_length_small:
  assumes "0 < n" and "n < 31"
  shows "length (enumerate_round alph n) = n ^ (n * length alph) * 2 ^ n"
proof -
  from js_shl1_small [OF assms(2)] have "nat (js_shl1 n) = 2 ^ n"
    by (simp add: nat_power_eq)
  with enumerate_round_length [OF assms(1)] show ?thesis by simp
qed

text \<open>A round yields nothing when \<open>1 << n\<close> is not positive.\<close>

lemma transitions_loop_empty:
  "js_shl1 n \<le> 0 \<Longrightarrow> transitions_loop alph n digits = []"
proof (induction alph n digits rule: transitions_loop.induct)
  case (1 alph n digits)
  obtain b digits' where inc: "incrementDigits n digits = (b, digits')"
    by (cases "incrementDigits n digits")
  from "1.prems" have e: "emit alph n (build_transitions alph n digits) = []"
    by (simp add: emit_def)
  show ?case
  proof (cases b)
    case True
    with "1.IH" [of True digits'] inc "1.prems" e show ?thesis
      by (subst transitions_loop.simps) simp
  next
    case False
    with inc e show ?thesis
      by (subst transitions_loop.simps) simp
  qed
qed

lemma enumerate_round_31: "enumerate_round alph 31 = []"
  unfolding enumerate_round_def
  by (rule transitions_loop_empty) (simp add: js_shl1_31)

text \<open>
  The first round yields the two single-state automata over the alphabet of the source,
  the one without a final state first.
\<close>

lemma enumerate_round_1:
  "enumerate_round [CHR ''a'', CHR ''b''] 1 = [singleStateDFA [], singleStateDFA [0]]"
  by (simp add: enumerate_round_def transitions_loop.simps emit_def
      js_shl1_def build_transitions_def build_row_def finals_of_mask_def js_bit_test_def
      singleStateDFA_def upt_rec)

lemma transitions_loop_fields:
  "d \<in> set (transitions_loop alph n digits) \<Longrightarrow>
     states d = [0..<n] \<and> alphabet d = alph \<and> start d = 0"
proof (induction alph n digits rule: transitions_loop.induct)
  case (1 alph n digits)
  obtain b digits' where inc: "incrementDigits n digits = (b, digits')"
    by (cases "incrementDigits n digits")
  from "1.prems" consider
    "d \<in> set (emit alph n (build_transitions alph n digits))"
    | "b" "d \<in> set (transitions_loop alph n digits')"
    by (subst (asm) transitions_loop.simps) (auto simp: inc split: bool.splits)
  then show ?case
  proof cases
    case 1
    then show ?thesis by (auto simp: emit_def)
  next
    case 2
    with "1.IH" [of True digits'] inc show ?thesis by simp
  qed
qed

lemma outer_loop_fields:
  "d \<in> set (outer_loop alph n k) \<Longrightarrow>
     n \<le> length (states d) \<and> length (states d) < n + k \<and>
     states d = [0..<length (states d)] \<and> alphabet d = alph \<and> start d = 0"
proof (induction k arbitrary: n)
  case 0
  then show ?case by simp
next
  case (Suc k)
  from Suc.prems consider "d \<in> set (enumerate_round alph n)"
    | "d \<in> set (outer_loop alph (Suc n) k)"
    by auto
  then show ?case
  proof cases
    case 1
    from transitions_loop_fields [OF 1 [unfolded enumerate_round_def]]
    show ?thesis by simp
  next
    case 2
    from Suc.IH [OF 2] show ?thesis by simp
  qed
qed

text \<open>
  The first outputs of the generator over the alphabet of the source: the two
  single-state automata, the one with no final state first; every later output has at
  least two states.
\<close>

lemma enumerateDFAs_first_two:
  "enumerateDFAs [CHR ''a'', CHR ''b''] (Suc k) =
     singleStateDFA [] # singleStateDFA [0] # outer_loop [CHR ''a'', CHR ''b''] 2 k \<and>
   (\<forall>d \<in> set (outer_loop [CHR ''a'', CHR ''b''] 2 k). 2 \<le> length (states d))"
proof
  have "outer_loop [CHR ''a'', CHR ''b''] 1 (Suc k) =
      enumerate_round [CHR ''a'', CHR ''b''] 1 @ outer_loop [CHR ''a'', CHR ''b''] (1 + 1) k"
    by (simp only: outer_loop.simps)
  also have "(1 :: nat) + 1 = 2" by simp
  finally show "enumerateDFAs [CHR ''a'', CHR ''b''] (Suc k) =
      singleStateDFA [] # singleStateDFA [0] # outer_loop [CHR ''a'', CHR ''b''] 2 k"
    by (simp only: enumerateDFAs_def enumerate_round_1 append.simps)
  show "\<forall>d \<in> set (outer_loop [CHR ''a'', CHR ''b''] 2 k). 2 \<le> length (states d)"
    using outer_loop_fields [of _ "[CHR ''a'', CHR ''b'']" 2 k] by blast
qed

text \<open>
  Claim C7 states that the first two outputs over the two-symbol alphabet are the two
  single-state automata (\<open>enumerateDFAs_first_two\<close> above), and that the round for the
  state count \<open>n\<close> yields \<open>n ^ (n * |alphabet|) * 2 ^ n\<close> automata, which holds for \<open>n\<close>
  up to \<open>30\<close> (\<open>enumerate_round_length_small\<close> above). The code departs from it at
  \<open>n = 31\<close>: the bound \<open>1 << n\<close> of the loop over the masks is \<open>-2147483648\<close>, the loop
  body never runs, and the round yields nothing, for the empty alphabet (where the claim
  gives \<open>2 ^ 31\<close> automata) as for the alphabet of the source.
\<close>

theorem enumerate_round_31_yields_nothing:
  "js_shl1 31 = - 2147483648 \<and>
   length (enumerate_round [] 31) = 0 \<and>
   (31 :: nat) ^ (31 * length ([] :: symbol list)) * 2 ^ 31 = 2147483648 \<and>
   length (enumerate_round [CHR ''a'', CHR ''b''] 31) = 0"
  by (simp add: enumerate_round_31 js_shl1_31)

subsection \<open>Every canonical automaton is yielded exactly once\<close>

lemma count_list_map_filter: "count_list (map f xs) y = length (filter (\<lambda>x. f x = y) xs)"
  by (induction xs) auto

lemma finals_of_mask_bits: "n \<le> 32 \<Longrightarrow> finals_of_mask n m = filter (bit m) [0..<n]"
  unfolding finals_of_mask_def
  by (rule filter_cong) (auto simp: js_bit_test_small)

lemma strict_sorted_filter_upt:
  assumes "sorted_wrt (<) fs" and "\<forall>f \<in> set fs. f < n"
  shows "filter (\<lambda>s. s \<in> set fs) [0..<n] = fs"
proof (rule sorted_distinct_set_unique)
  show "sorted (filter (\<lambda>s. s \<in> set fs) [0..<n])" by (simp add: sorted_wrt_filter)
  show "distinct (filter (\<lambda>s. s \<in> set fs) [0..<n])" by simp
  from assms(1) show "sorted fs" "distinct fs" by (simp_all add: strict_sorted_iff)
  from assms(2) show "set (filter (\<lambda>s. s \<in> set fs) [0..<n]) = set fs" by auto
qed

text \<open>
  For at most 32 states, an increasing list of states is the list of final states of
  exactly one mask below \<open>2 ^ n\<close>.
\<close>

lemma mask_unique:
  assumes srt: "sorted_wrt (<) fs" and bnd: "\<forall>f \<in> set fs. f < n" and n: "n \<le> 32"
  shows "\<exists>!m. m < 2 ^ n \<and> finals_of_mask n m = fs"
proof -
  define m0 :: nat where "m0 = horner_sum of_bool 2 (map (\<lambda>s. s \<in> set fs) [0..<n])"
  have bit0: "bit m0 s \<longleftrightarrow> s < n \<and> s \<in> set fs" for s
    by (auto simp: m0_def bit_horner_sum_bit_iff)
  have lt0: "m0 < 2 ^ n"
    using horner_sum_bound [of "map (\<lambda>s. s \<in> set fs) [0..<n]", where ?'a = nat]
    by (simp add: m0_def)
  have "filter (bit m0) [0..<n] = filter (\<lambda>s. s \<in> set fs) [0..<n]"
    by (rule filter_cong) (auto simp: bit0)
  with strict_sorted_filter_upt [OF srt bnd] n have f0: "finals_of_mask n m0 = fs"
    by (simp add: finals_of_mask_bits)
  have "m = m0" if m: "m < 2 ^ n" and fm: "finals_of_mask n m = fs" for m
  proof (rule bit_eqI)
    fix s
    show "bit m s \<longleftrightarrow> bit m0 s"
    proof (cases "s < n")
      case True
      from fm n have "set (filter (bit m) [0..<n]) = set fs"
        by (simp add: finals_of_mask_bits)
      with True have "bit m s \<longleftrightarrow> s \<in> set fs" by auto
      with True show ?thesis by (simp add: bit0)
    next
      case False
      from m have "take_bit n m = m" by (rule take_bit_nat_eq_self)
      then have "bit m s \<longleftrightarrow> bit (take_bit n m) s" by simp
      with False show ?thesis by (simp add: bit_take_bit_iff bit0)
    qed
  qed
  with lt0 f0 show ?thesis by blast
qed

lemma emitted_eq:
  assumes "states d = [0..<n]" and "alphabet d = alph" and "start d = 0"
  shows "\<lparr> states = [0..<n], alphabet = alph, start = 0, finals = fs, transitions = tr \<rparr> = d
           \<longleftrightarrow> tr = transitions d \<and> fs = finals d"
proof -
  obtain a b c e f where
    d: "d = \<lparr> states = a, alphabet = b, start = c, finals = e, transitions = f \<rparr>"
    by (cases d)
  from assms show ?thesis unfolding d by simp blast
qed

lemma emit_count:
  assumes st: "states d = [0..<n]" and al: "alphabet d = alph" and s0: "start d = 0"
    and srt: "sorted_wrt (<) (finals d)" and bnd: "\<forall>f \<in> set (finals d). f < n"
    and n: "n < 31"
  shows "count_list (emit alph n tr) d = (if tr = transitions d then 1 else 0)"
proof -
  let ?f = "\<lambda>msk. \<lparr> states = [0..<n], alphabet = alph, start = 0,
                     finals = finals_of_mask n msk, transitions = tr \<rparr>"
  have N: "nat (js_shl1 n) = 2 ^ n"
    using js_shl1_small [OF n] by (simp add: nat_power_eq)
  have eq: "?f m = d \<longleftrightarrow> tr = transitions d \<and> finals_of_mask n m = finals d" for m
    by (rule emitted_eq [OF st al s0])
  have "emit alph n tr = map ?f [0..<2 ^ n]"
    by (simp only: emit_def N)
  then have "count_list (emit alph n tr) d = length (filter (\<lambda>m. ?f m = d) [0..<2 ^ n])"
    by (simp only: count_list_map_filter)
  also have "\<dots> = card ({m. ?f m = d} \<inter> set [0..<2 ^ n])"
    by (rule distinct_length_filter) simp
  also have "\<dots> = (if tr = transitions d then 1 else 0)"
  proof (cases "tr = transitions d")
    case True
    from mask_unique [OF srt bnd] n obtain m0 where
      m0: "m0 < 2 ^ n" "finals_of_mask n m0 = finals d"
      and u: "\<And>m. m < 2 ^ n \<Longrightarrow> finals_of_mask n m = finals d \<Longrightarrow> m = m0"
      by auto
    have "{m. ?f m = d} \<inter> set [0..<2 ^ n] = {m0}"
    proof (rule set_eqI)
      fix m
      show "m \<in> {m. ?f m = d} \<inter> set [0..<2 ^ n] \<longleftrightarrow> m \<in> {m0}"
      proof
        assume "m \<in> {m. ?f m = d} \<inter> set [0..<2 ^ n]"
        then have "?f m = d" and lt: "m < 2 ^ n" by simp_all
        with eq [of m] have "finals_of_mask n m = finals d" by blast
        with lt have "m = m0" by (rule u)
        then show "m \<in> {m0}" by simp
      next
        assume "m \<in> {m0}"
        then have m: "m = m0" by simp
        from True m0(2) eq [of m0] have "?f m0 = d" by blast
        with m0(1) show "m \<in> {m. ?f m = d} \<inter> set [0..<2 ^ n]"
          unfolding m by simp
      qed
    qed
    moreover have "card {m0} = 1" by simp
    ultimately have "card ({m. ?f m = d} \<inter> set [0..<2 ^ n]) = 1"
      by (simp only:)
    with True show ?thesis by (simp only: simp_thms if_True)
  next
    case False
    have "{m. ?f m = d} \<inter> set [0..<2 ^ n] = {}"
    proof (rule set_eqI)
      fix m
      from False eq [of m] have "?f m \<noteq> d" by blast
      then show "m \<in> {m. ?f m = d} \<inter> set [0..<2 ^ n] \<longleftrightarrow> m \<in> {}" by simp
    qed
    then have "card ({m. ?f m = d} \<inter> set [0..<2 ^ n]) = 0"
      by (simp only: card.empty)
    with False show ?thesis by (simp only: simp_thms if_False)
  qed
  finally show ?thesis .
qed

lemma index_div:
  assumes "k < (m :: nat)"
  shows "(s * m + k) div m = s"
  using assms by (simp add: div_mult_self3)

lemma digits_of_table_nth:
  assumes "s < n" and "k < length alph"
  shows "digits_of_table alph n tr ! (s * length alph + k) =
           the (row_entries (the (tr s)) (alph ! k))"
proof -
  from index_in_range [OF assms] have "s * length alph + k < n * length alph" .
  moreover have "(s * length alph + k) div length alph = s"
    using assms(2) by (rule index_div)
  ultimately show ?thesis
    using assms(2) by (simp add: digits_of_table_def)
qed

lemma digits_of_table_length: "length (digits_of_table alph n tr) = n * length alph"
  by (simp add: digits_of_table_def)

lemma canonical_row:
  assumes "canonical_dfa alph n d" and "s < n"
  shows "\<exists>r. transitions d s = Some (RowObject r) \<and>
           (\<forall>c. c \<notin> set alph \<longrightarrow> r c = None) \<and>
           (\<forall>c \<in> set alph. \<exists>t < n. r c = Some t)"
proof -
  from assms(1) have "\<forall>s' < n. \<exists>r. transitions d s' = Some (RowObject r) \<and>
      (\<forall>c. c \<notin> set alph \<longrightarrow> r c = None) \<and>
      (\<forall>c \<in> set alph. \<exists>t < n. r c = Some t)"
    by (simp add: canonical_dfa_def)
  with assms(2) show ?thesis by (elim allE [of _ s]) (erule impE, assumption)
qed

lemma digits_of_table_bounded:
  assumes "canonical_dfa alph n d"
  shows "\<forall>x \<in> set (digits_of_table alph n (transitions d)). x < n"
proof
  fix x assume "x \<in> set (digits_of_table alph n (transitions d))"
  then obtain i where i: "i < n * length alph"
    and x: "x = the (row_entries (the (transitions d (i div length alph)))
                  (alph ! (i mod length alph)))"
    by (auto simp: digits_of_table_def)
  from i have len: "0 < length alph" by (cases "length alph") auto
  from i have s: "i div length alph < n"
    by (simp add: less_mult_imp_div_less)
  from len have k: "i mod length alph < length alph" by simp
  from canonical_row [OF assms s] obtain r where
    r: "transitions d (i div length alph) = Some (RowObject r)"
    and rc: "\<forall>c \<in> set alph. \<exists>t < n. r c = Some t"
    by blast
  from rc k obtain t where "t < n" "r (alph ! (i mod length alph)) = Some t"
    by (meson nth_mem)
  with x r show "x < n" by (simp add: row_entries_def)
qed

lemma build_digits_of_table:
  assumes can: "canonical_dfa alph n d" and dist: "distinct alph"
  shows "build_transitions alph n (digits_of_table alph n (transitions d)) = transitions d"
proof
  fix s
  let ?t = "digits_of_table alph n (transitions d)"
  show "build_transitions alph n ?t s = transitions d s"
  proof (cases "s < n")
    case False
    with can show ?thesis
      by (simp add: build_transitions_apply canonical_dfa_def)
  next
    case True
    from canonical_row [OF can True] obtain r where
      r: "transitions d s = Some (RowObject r)"
      and rn: "\<forall>c. c \<notin> set alph \<longrightarrow> r c = None"
      and rc: "\<forall>c \<in> set alph. \<exists>t < n. r c = Some t"
      by blast
    have "build_row alph ?t s = r"
    proof
      fix c
      show "build_row alph ?t s c = r c"
      proof (cases "c \<in> set alph")
        case False
        with rn show ?thesis by (simp add: build_row_None)
      next
        case True
        then obtain k where k: "k < length alph" "c = alph ! k"
          by (auto simp: in_set_conv_nth)
        from rc True obtain t where t: "r c = Some t" by blast
        from build_row_nth [OF dist k(1), of ?t s]
          digits_of_table_nth [OF \<open>s < n\<close> k(1), of "transitions d"]
        show ?thesis by (simp add: k(2) [symmetric] r t row_entries_def)
      qed
    qed
    with True r show ?thesis by (simp add: build_transitions_apply)
  qed
qed

lemma build_transitions_inj:
  assumes dist: "distinct alph"
    and lx: "length xs = n * length alph" and ly: "length ys = n * length alph"
    and eq: "build_transitions alph n xs = build_transitions alph n ys"
  shows "xs = ys"
proof (rule nth_equalityI)
  show "length xs = length ys" using lx ly by simp
next
  fix i assume "i < length xs"
  with lx have i: "i < n * length alph" by simp
  then have len: "0 < length alph" by (cases "length alph") auto
  from i have s: "i div length alph < n" by (simp add: less_mult_imp_div_less)
  from len have k: "i mod length alph < length alph" by simp
  let ?s = "i div length alph" and ?k = "i mod length alph"
  have idx: "?s * length alph + ?k = i" by simp
  from eq have "build_transitions alph n xs ?s = build_transitions alph n ys ?s"
    by (rule arg_cong)
  with s have "build_row alph xs ?s = build_row alph ys ?s"
    by (simp only: build_transitions_apply if_True option.inject row_value.inject)
  then have "build_row alph xs ?s (alph ! ?k) = build_row alph ys ?s (alph ! ?k)"
    by (rule arg_cong)
  then have "xs ! (?s * length alph + ?k) = ys ! (?s * length alph + ?k)"
    by (simp only: build_row_nth [OF dist k] option.inject)
  then show "xs ! i = ys ! i" by (simp only: idx)
qed

lemma transitions_loop_count:
  "distinct alph \<Longrightarrow> 0 < n \<Longrightarrow> n < 31 \<Longrightarrow> canonical_dfa alph n d \<Longrightarrow>
     length digits = n * length alph \<Longrightarrow> \<forall>x \<in> set digits. x < n \<Longrightarrow>
     count_list (transitions_loop alph n digits) d =
       (if odometer_rank n digits \<le> odometer_rank n (digits_of_table alph n (transitions d))
        then 1 else 0)"
proof (induction alph n digits rule: transitions_loop.induct)
  case (1 alph n digits)
  note dist = "1.prems"(1) and n0 = "1.prems"(2) and n = "1.prems"(3)
    and can = "1.prems"(4) and len = "1.prems"(5) and bnd = "1.prems"(6)
  let ?t = "digits_of_table alph n (transitions d)"
  have tl: "length ?t = n * length alph" by (rule digits_of_table_length)
  have tb: "\<forall>x \<in> set ?t. x < n" by (rule digits_of_table_bounded [OF can])
  have same: "build_transitions alph n digits = transitions d \<longleftrightarrow> digits = ?t"
  proof
    assume "build_transitions alph n digits = transitions d"
    with build_digits_of_table [OF can dist]
    have "build_transitions alph n digits = build_transitions alph n ?t" by simp
    from build_transitions_inj [OF dist len tl this] show "digits = ?t" .
  next
    assume "digits = ?t"
    with build_digits_of_table [OF can dist]
    show "build_transitions alph n digits = transitions d" by simp
  qed
  have rank_eq: "digits = ?t \<longleftrightarrow> odometer_rank n digits = odometer_rank n ?t"
    using odometer_rank_inj [of digits ?t n] len bnd tl tb by auto
  from can have
    "states d = [0..<n]" "alphabet d = alph" "start d = 0" "sorted_wrt (<) (finals d)"
    "\<forall>f \<in> set (finals d). f < n"
    by (simp_all add: canonical_dfa_def)
  from emit_count [OF this n, of "build_transitions alph n digits"] same rank_eq
  have e: "count_list (emit alph n (build_transitions alph n digits)) d =
      (if odometer_rank n digits = odometer_rank n ?t then 1 else 0)"
    by simp
  obtain b digits' where inc: "incrementDigits n digits = (b, digits')"
    by (cases "incrementDigits n digits")
  show ?case
  proof (cases b)
    case True
    from incrementDigits_True [of n digits digits'] inc True
    have r: "odometer_rank n digits' = Suc (odometer_rank n digits)" by simp
    have l: "length digits' = n * length alph"
      using incrementDigits_length [of n digits] inc len by simp
    have bd: "\<forall>x \<in> set digits'. x < n"
      using incrementDigits_bounded [OF bnd] inc by simp
    from "1.IH" [of True digits', OF _ _ dist n0 n can l bd] inc True
    have "count_list (transitions_loop alph n digits') d =
        (if odometer_rank n digits' \<le> odometer_rank n ?t then 1 else 0)"
      by simp
    with e r have "count_list (emit alph n (build_transitions alph n digits)) d +
        count_list (transitions_loop alph n digits') d =
        (if odometer_rank n digits \<le> odometer_rank n ?t then 1 else 0)"
      by auto
    then show ?thesis
      by (subst transitions_loop.simps) (simp add: inc True)
  next
    case False
    from incrementDigits_False [of n digits digits'] inc False n0
    have "Suc (odometer_rank n digits) = n ^ length digits" by simp
    moreover from odometer_rank_less [OF n0, of ?t] tl len
    have "odometer_rank n ?t < n ^ length digits" by simp
    ultimately have "odometer_rank n ?t \<le> odometer_rank n digits" by simp
    with e have "count_list (emit alph n (build_transitions alph n digits)) d =
        (if odometer_rank n digits \<le> odometer_rank n ?t then 1 else 0)"
      by auto
    then show ?thesis
      by (subst transitions_loop.simps) (simp add: inc False)
  qed
qed

lemma enumerate_round_count:
  assumes "distinct alph" and "0 < n" and "n < 31" and "canonical_dfa alph n d"
  shows "count_list (enumerate_round alph n) d = 1"
proof -
  have "count_list (transitions_loop alph n (replicate (n * length alph) 0)) d =
      (if odometer_rank n (replicate (n * length alph) 0)
          \<le> odometer_rank n (digits_of_table alph n (transitions d))
       then 1 else 0)"
    using assms(2) by (intro transitions_loop_count assms) simp_all
  then show ?thesis
    by (simp add: enumerate_round_def odometer_rank_replicate)
qed

lemma enumerate_round_other:
  assumes "states d = [0..<n]" and "m \<noteq> n"
  shows "count_list (enumerate_round alph m) d = 0"
proof -
  have "d \<notin> set (enumerate_round alph m)"
  proof
    assume "d \<in> set (enumerate_round alph m)"
    from transitions_loop_fields [OF this [unfolded enumerate_round_def]] assms(1)
    have "[0..<m] = [0..<n]" by simp
    then have "length [0..<m] = length [0..<n]" by (rule arg_cong)
    with assms(2) show False by simp
  qed
  then show ?thesis by (rule count_notin)
qed

lemma outer_loop_count:
  assumes "distinct alph" and "0 < n" and "n < 31" and "canonical_dfa alph n d"
  shows "count_list (outer_loop alph m k) d = (if m \<le> n \<and> n < m + k then 1 else 0)"
proof (induction k arbitrary: m)
  case 0
  then show ?case by simp
next
  case (Suc k)
  from assms(4) have st: "states d = [0..<n]" by (simp add: canonical_dfa_def)
  show ?case
  proof (cases "m = n")
    case True
    with enumerate_round_count [OF assms] Suc.IH [of "m + 1"] show ?thesis
      by (simp add: count_list_append)
  next
    case False
    with enumerate_round_other [OF st, of m alph] Suc.IH [of "m + 1"] show ?thesis
      by (auto simp: count_list_append)
  qed
qed

lemma outer_loop_append:
  "outer_loop alph m (j + k) = outer_loop alph m j @ outer_loop alph (m + j) k"
  by (induction j arbitrary: m) simp_all

text \<open>
  Over an alphabet of distinct symbols, every canonical automaton with \<open>n\<close> states, for
  \<open>n\<close> from \<open>1\<close> to \<open>30\<close>, is yielded by the end of round \<open>n\<close>, and it occurs exactly once
  in the sequence, however many rounds are run; each round extends the sequence of the
  rounds before it.
\<close>

lemma enumerateDFAs_complete_small:
  assumes "distinct alph" and "0 < n" and "n \<le> 30" and "canonical_dfa alph n d"
    and "n \<le> rounds"
  shows "count_list (enumerateDFAs alph rounds) d = 1 \<and>
         d \<in> set (enumerateDFAs alph n) \<and>
         take (length (enumerateDFAs alph n)) (enumerateDFAs alph rounds) = enumerateDFAs alph n"
proof -
  from assms(3) have n: "n < 31" by simp
  note cnt = outer_loop_count [OF assms(1,2) n assms(4), of 1]
  from cnt [of rounds] assms(2,5) have c: "count_list (enumerateDFAs alph rounds) d = 1"
    by (simp add: enumerateDFAs_def)
  from cnt [of n] assms(2) have "count_list (enumerateDFAs alph n) d = 1"
    by (simp add: enumerateDFAs_def)
  then have m: "d \<in> set (enumerateDFAs alph n)"
    by (metis count_list_0_iff zero_neq_one)
  from assms(5) obtain k where "rounds = n + k" by (auto simp: le_iff_add)
  then have "enumerateDFAs alph rounds = enumerateDFAs alph n @ outer_loop alph (1 + n) k"
    by (simp add: enumerateDFAs_def outer_loop_append)
  then have "take (length (enumerateDFAs alph n)) (enumerateDFAs alph rounds) =
      enumerateDFAs alph n"
    by simp
  with c m show ?thesis by simp
qed

lemma enumerateDFAs_complete_example:
  "canonical_dfa [CHR ''a'', CHR ''b''] 2 validDFA \<and>
   count_list (enumerateDFAs [CHR ''a'', CHR ''b''] 5) validDFA = 1 \<and>
   validDFA \<in> set (enumerateDFAs [CHR ''a'', CHR ''b''] 2)"
proof -
  have d: "distinct [CHR ''a'', CHR ''b'']" by simp
  have c: "canonical_dfa [CHR ''a'', CHR ''b''] 2 validDFA"
    by (auto simp: canonical_dfa_def validDFA_def less_Suc_eq numeral_2_eq_2)
  from enumerateDFAs_complete_small [OF d _ _ c, of 5] c show ?thesis by simp
qed

text \<open>An automaton of the sequence is yielded in the round of its state count.\<close>

lemma outer_loop_member_round:
  "d \<in> set (outer_loop alph m k) \<Longrightarrow> d \<in> set (enumerate_round alph (length (states d)))"
proof (induction k arbitrary: m)
  case 0
  then show ?case by simp
next
  case (Suc k)
  from Suc.prems consider "d \<in> set (enumerate_round alph m)"
    | "d \<in> set (outer_loop alph (Suc m) k)"
    by auto
  then show ?case
  proof cases
    case 1
    from transitions_loop_fields [OF 1 [unfolded enumerate_round_def]]
    have "length (states d) = m" by simp
    with 1 show ?thesis by simp
  next
    case 2
    then show ?thesis by (rule Suc.IH)
  qed
qed

lemma thirtyOneStateDFA_well_formed: "well_formed thirtyOneStateDFA"
  by (simp add: well_formed_def thirtyOneStateDFA_def)

text \<open>
  Claim C4 states that every automaton with a finite state count appears in the sequence
  exactly once. With the start state fixed at \<open>0\<close>, as the specification has it, this
  holds for the state counts up to \<open>30\<close> (\<open>enumerateDFAs_complete_small\<close> above). The
  code departs from it at the state count \<open>31\<close>, where the round yields nothing
  (\<open>enumerate_round_31\<close>): the automaton \<open>thirtyOneStateDFA\<close>, which has the start state
  \<open>0\<close> and passes validation, is never yielded, however many rounds are run.
\<close>

theorem enumerateDFAs_omits_31_states:
  "validateDFA thirtyOneStateDFA = Inr 1 \<and>
   thirtyOneStateDFA \<notin> set (enumerateDFAs [] rounds)"
proof
  show "validateDFA thirtyOneStateDFA = Inr 1"
    using thirtyOneStateDFA_well_formed validateDFA_well_formed by blast
  show "thirtyOneStateDFA \<notin> set (enumerateDFAs [] rounds)"
  proof
    assume "thirtyOneStateDFA \<in> set (enumerateDFAs [] rounds)"
    from outer_loop_member_round [OF this [unfolded enumerateDFAs_def]]
    have "thirtyOneStateDFA \<in> set (enumerate_round [] (length (states thirtyOneStateDFA)))" .
    moreover have "length (states thirtyOneStateDFA) = 31"
      by (simp add: thirtyOneStateDFA_def)
    ultimately show False by (simp add: enumerate_round_31)
  qed
qed

end
